theory Spec2Isabelle
  imports Main "HOL-Library.Word" "HOL-Library.Multiset"
begin

text \<open>
  A priority job queue with dead-letter lanes, a worker that retries failed jobs with an
  exponential backoff, and a scheduler that holds delayed jobs in a binary heap. The
  first part embeds the Go sources, file by file, and adds the vocabulary of the
  statements; the second part proves the properties.
\<close>

section \<open>Data model (utils/constants.go)\<close>

text \<open>
  \<^verbatim>\<open>type Priority int\<close> with the constants \<^verbatim>\<open>High = 1\<close>, \<^verbatim>\<open>Medium = 2\<close>,
  \<^verbatim>\<open>Low = 3\<close>. A priority is only ever compared for equality and used as a map key, so
  its width plays no role and it is an \<open>int\<close> here; any other value is a well-formed
  \<^verbatim>\<open>Priority\<close> too (the zero value 0 is what an unset field holds).
\<close>

type_synonym Priority = int

definition High :: Priority where "High = 1"

definition Medium :: Priority where "Medium = 2"

definition Low :: Priority where "Low = 3"

text \<open>
  \<^verbatim>\<open>type Job struct\<close>. \<^verbatim>\<open>RetryCount\<close> and \<^verbatim>\<open>MaxRetries\<close> are Go \<^verbatim>\<open>int\<close>s: 64-bit
  two's complement on the 64-bit targets, read with \<open>sint\<close>; \<open>+\<close> wraps as Go's does.
  \<^verbatim>\<open>Payload\<close> is a \<^verbatim>\<open>map[string]string\<close>; \<^verbatim>\<open>CreatedAt\<close> is an instant, counted in
  nanoseconds.
\<close>

record Job =
  ID :: string
  Type :: string
  Payload :: "string \<rightharpoonup> string"
  Priority :: Priority
  RetryCount :: "64 word"
  MaxRetries :: "64 word"
  CreatedAt :: int

section \<open>utils/utils.go\<close>

text \<open>
  \<^verbatim>\<open>RemoveJob\<close>: the first entry whose ID equals the job's is cut out, the rest keeps its
  order; without a match the slice is returned as it is.
\<close>

fun RemoveJob :: "Job list \<Rightarrow> Job \<Rightarrow> Job list" where
  "RemoveJob [] job = []"
| "RemoveJob (j # jobs) job = (if ID j = ID job then jobs else j # RemoveJob jobs job)"

section \<open>queue/queue.go\<close>

text \<open>
  \<^verbatim>\<open>JobQueue\<close> holds two Go maps from \<^verbatim>\<open>Priority\<close> to a slice of jobs. Reading a key
  that is absent yields the nil slice, of length 0, and \<^verbatim>\<open>append\<close> accepts it; so a map
  is a total function here, with \<open>[]\<close> for a key that holds nothing. Every lane has a
  backing array of its own (each is only ever replaced by a slice of itself), so the
  in-place \<^verbatim>\<open>append(jobs[:i], jobs[i+1:]...)\<close> of \<^verbatim>\<open>RemoveJob\<close> reaches no other lane
  and lists model the lanes. The mutex makes every method one atomic step; a method is a
  function from the store before to the store after.
\<close>

record JobQueue =
  queue :: "Priority \<Rightarrow> Job list"
  deadLetterQueue :: "Priority \<Rightarrow> Job list"

definition NewQueue :: JobQueue where
  "NewQueue = \<lparr>queue = (\<lambda>_. []), deadLetterQueue = (\<lambda>_. [])\<rparr>"

definition AddJob :: "Job \<Rightarrow> JobQueue \<Rightarrow> JobQueue" where
  "AddJob job q =
     (if Priority job = High then q\<lparr>queue := (queue q)(High := queue q High @ [job])\<rparr>
      else if Priority job = Medium then q\<lparr>queue := (queue q)(Medium := queue q Medium @ [job])\<rparr>
      else if Priority job = Low then q\<lparr>queue := (queue q)(Low := queue q Low @ [job])\<rparr>
      else q)"

datatype error = NoJobFound | SimulatedError

text \<open>
  \<^verbatim>\<open>GetJob\<close> returns the pair (job, error) of the source as a sum, together with the store
  it leaves behind.
\<close>

definition GetJob :: "JobQueue \<Rightarrow> (error + Job) \<times> JobQueue" where
  "GetJob q =
     (if length (queue q High) > 0
      then (Inr (hd (queue q High)), q\<lparr>queue := (queue q)(High := tl (queue q High))\<rparr>)
      else if length (queue q Medium) > 0
      then (Inr (hd (queue q Medium)), q\<lparr>queue := (queue q)(Medium := tl (queue q Medium))\<rparr>)
      else if length (queue q Low) > 0
      then (Inr (hd (queue q Low)), q\<lparr>queue := (queue q)(Low := tl (queue q Low))\<rparr>)
      else (Inl NoJobFound, q))"

definition RemoveJobFromQueue :: "Job \<Rightarrow> JobQueue \<Rightarrow> JobQueue" where
  "RemoveJobFromQueue job q =
     (if Priority job = High then q\<lparr>queue := (queue q)(High := RemoveJob (queue q High) job)\<rparr>
      else if Priority job = Medium
      then q\<lparr>queue := (queue q)(Medium := RemoveJob (queue q Medium) job)\<rparr>
      else if Priority job = Low then q\<lparr>queue := (queue q)(Low := RemoveJob (queue q Low) job)\<rparr>
      else q)"

definition MoveJobToDeadLetterQueue :: "Job \<Rightarrow> JobQueue \<Rightarrow> JobQueue" where
  "MoveJobToDeadLetterQueue job q =
     (if Priority job = High
      then q\<lparr>queue := (queue q)(High := RemoveJob (queue q High) job),
             deadLetterQueue := (deadLetterQueue q)(High := deadLetterQueue q High @ [job])\<rparr>
      else if Priority job = Medium
      then q\<lparr>queue := (queue q)(Medium := RemoveJob (queue q Medium) job),
             deadLetterQueue := (deadLetterQueue q)(Medium := deadLetterQueue q Medium @ [job])\<rparr>
      else if Priority job = Low
      then q\<lparr>queue := (queue q)(Low := RemoveJob (queue q Low) job),
             deadLetterQueue := (deadLetterQueue q)(Low := deadLetterQueue q Low @ [job])\<rparr>
      else q)"

definition GetDeadLetterJob :: "JobQueue \<Rightarrow> (error + Job) \<times> JobQueue" where
  "GetDeadLetterJob q =
     (if length (deadLetterQueue q High) > 0
      then (Inr (hd (deadLetterQueue q High)),
            q\<lparr>deadLetterQueue := (deadLetterQueue q)(High := tl (deadLetterQueue q High))\<rparr>)
      else if length (deadLetterQueue q Medium) > 0
      then (Inr (hd (deadLetterQueue q Medium)),
            q\<lparr>deadLetterQueue := (deadLetterQueue q)(Medium := tl (deadLetterQueue q Medium))\<rparr>)
      else if length (deadLetterQueue q Low) > 0
      then (Inr (hd (deadLetterQueue q Low)),
            q\<lparr>deadLetterQueue := (deadLetterQueue q)(Low := tl (deadLetterQueue q Low))\<rparr>)
      else (Inl NoJobFound, q))"

definition GetAllJobs :: "JobQueue \<Rightarrow> Job list \<times> Job list \<times> Job list" where
  "GetAllJobs q = (queue q High, queue q Medium, queue q Low)"

definition GetAllDeadLetterJobs :: "JobQueue \<Rightarrow> Job list \<times> Job list \<times> Job list" where
  "GetAllDeadLetterJobs q = (deadLetterQueue q High, deadLetterQueue q Medium, deadLetterQueue q Low)"

section \<open>Example jobs\<close>

text \<open>
  The jobs of the repository's tests: an e-mail job whose recipient decides whether the
  handler fails.
\<close>

definition mk_job :: "string \<Rightarrow> string \<Rightarrow> Priority \<Rightarrow> 64 word \<Rightarrow> 64 word \<Rightarrow> Job" where
  "mk_job i to p rc m =
     \<lparr>ID = i, Type = ''email'', Payload = [''to'' \<mapsto> to], Priority = p,
      RetryCount = rc, MaxRetries = m, CreatedAt = 0\<rparr>"

section \<open>Draining the store\<close>

text \<open>
  Repeated \<^verbatim>\<open>GetJob\<close> until it reports that no job is left; the jobs in the order they
  were returned. Every call shortens one of the three lanes, so the loop ends.
\<close>

function drain :: "JobQueue \<Rightarrow> Job list" where
  "drain q = (case GetJob q of (Inl e, q') \<Rightarrow> [] | (Inr j, q') \<Rightarrow> j # drain q')"
  by pat_completeness auto
termination
proof (relation "measure (\<lambda>q. length (queue q High) + length (queue q Medium) + length (queue q Low))")
  show "wf (measure (\<lambda>q. length (queue q High) + length (queue q Medium) + length (queue q Low)))"
    by simp
next
  fix q :: JobQueue and x q' j
  assume "(x, q') = GetJob q" and "x = Inr j"
  then have "GetJob q = (Inr j, q')" by simp
  then show "(q', q) \<in> measure (\<lambda>q. length (queue q High) + length (queue q Medium) + length (queue q Low))"
    by (auto simp: GetJob_def High_def Medium_def Low_def split: if_splits)
qed

section \<open>worker/worker.go\<close>

text \<open>
  \<^verbatim>\<open>handleJob\<close> fails exactly on the recipient \<^verbatim>\<open>error@error.com\<close>; a key that the
  payload lacks reads as the empty string. Its result is Go's \<^verbatim>\<open>error\<close>: \<open>None\<close> is nil.
\<close>

definition handleJob :: "Job \<Rightarrow> error option" where
  "handleJob j =
     (if (case Payload j ''to'' of None \<Rightarrow> [] | Some v \<Rightarrow> v) = ''error@error.com''
      then Some SimulatedError else None)"

text \<open>
  The delay \<^verbatim>\<open>time.Duration(math.Pow(2, float64(j.RetryCount))) * time.Second\<close>.
  \<^verbatim>\<open>time.Duration\<close> is an \<^verbatim>\<open>int64\<close> count of nanoseconds and \<^verbatim>\<open>time.Second\<close> is
  1000000000. A power of two is an exact \<^verbatim>\<open>float64\<close>; the conversion to
  \<^verbatim>\<open>Duration\<close> truncates towards zero, so a negative exponent gives 0, an exponent from
  0 to 62 gives the power itself, and from 63 on the value is outside \<^verbatim>\<open>int64\<close>, where
  the language leaves the converted value to the implementation: \<open>None\<close> here. The
  multiplication by \<^verbatim>\<open>time.Second\<close> wraps.
\<close>

type_synonym Duration = "64 word"

definition Second :: Duration where "Second = 1000000000"

definition pow2_Duration :: "64 word \<Rightarrow> Duration option" where
  "pow2_Duration n =
     (if sint n < 0 then Some 0
      else if sint n \<le> 62 then Some (2 ^ nat (sint n))
      else None)"

definition retry_delay :: "64 word \<Rightarrow> Duration option" where
  "retry_delay n = map_option (\<lambda>d. d * Second) (pow2_Duration n)"

text \<open>
  What one worker and its retry goroutines share: the store, the goroutines started by
  failed attempts and not yet woken (each holds its delay and its copy of the job), and,
  as a ghost, the jobs passed to \<^verbatim>\<open>handleJob\<close> so far, in order.
\<close>

record timer =
  delay :: "Duration option"
  jobCopy :: Job

record system =
  store :: JobQueue
  timers :: "timer list"
  handled :: "Job list"

text \<open>
  One pass through the body of the \<^verbatim>\<open>for\<close> loop of \<^verbatim>\<open>Worker.Start\<close>. Sleeping changes
  nothing in the state. A dequeued job with an empty ID is not handled and not put back.
\<close>

definition Start_iteration :: "system \<Rightarrow> system" where
  "Start_iteration s =
     (case GetJob (store s) of
        (Inl err, q) \<Rightarrow> s\<lparr>store := q\<rparr>
      | (Inr j, q) \<Rightarrow>
          if ID j \<noteq> [] then
            (case handleJob j of
               Some err \<Rightarrow>
                 (let j' = j\<lparr>RetryCount := RetryCount j + 1\<rparr> in
                  if sint (RetryCount j') \<le> sint (MaxRetries j')
                  then s\<lparr>store := q,
                         timers := timers s @ [\<lparr>delay = retry_delay (RetryCount j'), jobCopy = j'\<rparr>],
                         handled := handled s @ [j]\<rparr>
                  else s\<lparr>store := MoveJobToDeadLetterQueue j' q, handled := handled s @ [j]\<rparr>)
             | None \<Rightarrow> s\<lparr>store := q, handled := handled s @ [j]\<rparr>)
          else s\<lparr>store := q\<rparr>)"

text \<open>
  A retry goroutine wakes and calls \<^verbatim>\<open>AddJob\<close> with its copy. A round is one pass of the
  worker followed by the waking of every goroutine then pending; passes of the worker
  over an empty store change nothing, so for a single job this is the order of events
  whatever the delays are.
\<close>

definition fire_timers :: "system \<Rightarrow> system" where
  "fire_timers s = s\<lparr>store := fold (\<lambda>t. AddJob (jobCopy t)) (timers s) (store s), timers := []\<rparr>"

definition round :: "system \<Rightarrow> system" where
  "round s = fire_timers (Start_iteration s)"

fun rounds :: "nat \<Rightarrow> system \<Rightarrow> system" where
  "rounds 0 s = s"
| "rounds (Suc n) s = rounds n (round s)"

definition submit :: "Job \<Rightarrow> system" where
  "submit j = \<lparr>store = AddJob j NewQueue, timers = [], handled = []\<rparr>"

section \<open>States of a job whose handler always fails\<close>

text \<open>The state while the job is pending with \<open>k\<close> failures behind it, and the final one.\<close>

definition pending_after :: "Job \<Rightarrow> nat \<Rightarrow> system" where
  "pending_after j k =
     \<lparr>store = AddJob (j\<lparr>RetryCount := of_nat k\<rparr>) NewQueue, timers = [],
      handled = map (\<lambda>i. j\<lparr>RetryCount := of_nat i\<rparr>) [0..<k]\<rparr>"

definition dead_after :: "Job \<Rightarrow> nat \<Rightarrow> system" where
  "dead_after j k =
     \<lparr>store = \<lparr>queue = (\<lambda>_. []),
               deadLetterQueue = (\<lambda>_. [])(Priority j := [j\<lparr>RetryCount := of_nat k\<rparr>])\<rparr>,
      timers = [], handled = map (\<lambda>i. j\<lparr>RetryCount := of_nat i\<rparr>) [0..<k]\<rparr>"

section \<open>scheduler/scheduler.go\<close>

text \<open>
  \<^verbatim>\<open>ScheduleJob\<close>: a job, the instant from which it is due, and the position marker the
  heap's \<^verbatim>\<open>Swap\<close> and \<^verbatim>\<open>Push\<close> write. Instants are counted in nanoseconds;
  \<^verbatim>\<open>Before\<close> and \<^verbatim>\<open>After\<close> are \<open><\<close> and \<open>>\<close>, and \<^verbatim>\<open>Add\<close> is \<open>+\<close>.
  \<^verbatim>\<open>JobHeap\<close> is a slice of pointers; every entry is created by one call of
  \<^verbatim>\<open>Scheduler\<close> and held by one slot, so a list of values models it.
\<close>

record ScheduleJob =
  Job :: Job
  ScheduleTime :: int
  index :: nat

type_synonym JobHeap = "ScheduleJob list"

definition Len :: "JobHeap \<Rightarrow> nat" where
  "Len h = length h"

definition Less :: "JobHeap \<Rightarrow> nat \<Rightarrow> nat \<Rightarrow> bool" where
  "Less h i j = (ScheduleTime (h ! i) < ScheduleTime (h ! j))"

text \<open>
  \<^verbatim>\<open>h[i], h[j] = h[j], h[i]; h[i].index, h[j].index = j, i\<close>: the entries change
  places, then the entry now at \<open>i\<close> is marked \<open>j\<close> and the entry now at \<open>j\<close> is marked
  \<open>i\<close>.
\<close>

definition Swap :: "JobHeap \<Rightarrow> nat \<Rightarrow> nat \<Rightarrow> JobHeap" where
  "Swap h i j =
     (let h' = h[i := h ! j, j := h ! i]
      in h'[i := (h' ! i)\<lparr>index := j\<rparr>, j := (h' ! j)\<lparr>index := i\<rparr>])"

definition Push :: "JobHeap \<Rightarrow> ScheduleJob \<Rightarrow> JobHeap" where
  "Push h job = h @ [job\<lparr>index := length h\<rparr>]"

definition Pop :: "JobHeap \<Rightarrow> ScheduleJob \<times> JobHeap" where
  "Pop h = (h ! (length h - 1), take (length h - 1) h)"

text \<open>
  The functions of Go's \<^verbatim>\<open>container/heap\<close> that the scheduler calls, instantiated with
  the methods above. They are the standard library's:
  \<^verbatim>\<open>
  func Push(h Interface, x any) { h.Push(x); up(h, h.Len()-1) }
  func Pop(h Interface) any { n := h.Len() - 1; h.Swap(0, n); down(h, 0, n); return h.Pop() }
  func up(h Interface, j int) {
      for {
          i := (j - 1) / 2 // parent
          if i == j || !h.Less(j, i) { break }
          h.Swap(i, j)
          j = i
      }
  }
  func down(h Interface, i0, n int) bool {
      i := i0
      for {
          j1 := 2*i + 1
          if j1 >= n || j1 < 0 { break } // j1 < 0 after int overflow
          j := j1 // left child
          if j2 := j1 + 1; j2 < n && h.Less(j2, j1) { j = j2 }
          if !h.Less(j, i) { break }
          h.Swap(i, j)
          i = j
      }
      return i > i0
  }
  \<close>
  Indices are natural numbers here: \<^verbatim>\<open>(0 - 1) / 2\<close> is 0 in Go, where division
  truncates, as \<open>(0 - 1) div 2\<close> is on \<open>nat\<close>. The result of \<^verbatim>\<open>down\<close> is not used by
  \<^verbatim>\<open>Pop\<close> and is left out. \<^verbatim>\<open>heap.Pop\<close> on an empty heap panics (\<^verbatim>\<open>Swap(0, -1)\<close>):
  \<open>None\<close>.
\<close>

function up :: "JobHeap \<Rightarrow> nat \<Rightarrow> JobHeap" where
  "up h j =
     (let i = (j - 1) div 2
      in if i = j \<or> \<not> Less h j i then h else up (Swap h i j) i)"
  by pat_completeness auto
termination
  by (relation "measure (\<lambda>(h, j). j)") auto

function down :: "JobHeap \<Rightarrow> nat \<Rightarrow> nat \<Rightarrow> JobHeap" where
  "down h i n =
     (let j1 = 2 * i + 1
      in if j1 \<ge> n then h
         else let j = (if j1 + 1 < n \<and> Less h (j1 + 1) j1 then j1 + 1 else j1)
              in if \<not> Less h j i then h else down (Swap h i j) j n)"
  by pat_completeness auto
termination
  by (relation "measure (\<lambda>(h, i, n). n - i)") (auto split: if_splits)

definition heap_Push :: "JobHeap \<Rightarrow> ScheduleJob \<Rightarrow> JobHeap" where
  "heap_Push h x = (let h' = Push h x in up h' (Len h' - 1))"

definition heap_Pop :: "JobHeap \<Rightarrow> (ScheduleJob \<times> JobHeap) option" where
  "heap_Pop h =
     (if Len h = 0 then None
      else let n = Len h - 1; h1 = Swap h 0 n; h2 = down h1 0 n in Some (Pop h2))"

text \<open>
  The scheduler: its heap and the store it feeds. \<^verbatim>\<open>heap.Init\<close> on the empty heap does
  nothing. \<^verbatim>\<open>Scheduler j d now\<close> is the call with delay \<open>d\<close> when \<^verbatim>\<open>time.Now()\<close> reads \<open>now\<close>.
\<close>

record Scheduler =
  heap :: JobHeap
  queue_s :: JobQueue

definition NewScheduler :: "JobQueue \<Rightarrow> Scheduler" where
  "NewScheduler q = \<lparr>heap = [], queue_s = q\<rparr>"

definition Scheduler :: "Job \<Rightarrow> int \<Rightarrow> int \<Rightarrow> Scheduler \<Rightarrow> Scheduler" where
  "Scheduler j d now s =
     s\<lparr>heap := heap_Push (heap s) \<lparr>Job = j, ScheduleTime = now + d, index = 0\<rparr>\<rparr>"

text \<open>
  One pass through the body of the \<^verbatim>\<open>for\<close> loop of \<^verbatim>\<open>poller\<close>, at clock reading
  \<open>now\<close>; the half second of sleep separates it from the next pass. The pop is guarded
  by \<^verbatim>\<open>Len() > 0\<close>, so its panic cannot happen.
\<close>

definition poller_tick :: "int \<Rightarrow> Scheduler \<Rightarrow> Scheduler" where
  "poller_tick now s =
     (if Len (heap s) > 0 then
        (let next = heap s ! 0
         in if now > ScheduleTime next
            then (case heap_Pop (heap s) of
                    Some (x, h') \<Rightarrow> s\<lparr>heap := h', queue_s := AddJob (Job next) (queue_s s)\<rparr>
                  | None \<Rightarrow> s)
            else s)
      else s)"

text \<open>A history of the scheduler: calls of \<^verbatim>\<open>Scheduler\<close> and passes of the poller.\<close>

datatype sched_op = Schedule Job int int | Tick int

fun apply_op :: "sched_op \<Rightarrow> Scheduler \<Rightarrow> Scheduler" where
  "apply_op (Schedule j d now) s = Scheduler j d now s"
| "apply_op (Tick now) s = poller_tick now s"

section \<open>The heap order\<close>

definition parent :: "nat \<Rightarrow> nat" where
  "parent k = (k - 1) div 2"

text \<open>The heap order on the first \<open>n\<close> slots, and on the whole heap.\<close>

definition heap_upto :: "nat \<Rightarrow> JobHeap \<Rightarrow> bool" where
  "heap_upto n h \<longleftrightarrow>
     (\<forall>k<n. 0 < k \<longrightarrow> ScheduleTime (h ! parent k) \<le> ScheduleTime (h ! k))"

definition heap_inv :: "JobHeap \<Rightarrow> bool" where
  "heap_inv h \<longleftrightarrow> heap_upto (length h) h"

text \<open>What an entry carries apart from its position marker, and the bag of these.\<close>

definition entry :: "ScheduleJob \<Rightarrow> Job \<times> int" where
  "entry e = (Job e, ScheduleTime e)"

definition entries :: "JobHeap \<Rightarrow> (Job \<times> int) multiset" where
  "entries h = mset (map entry h)"

text \<open>
  The heap order with slot \<open>j\<close> possibly smaller than its parent: every other slot is in
  order with its parent, and the children of \<open>j\<close> are in order with the parent of \<open>j\<close>.
\<close>

definition heap_except_up :: "JobHeap \<Rightarrow> nat \<Rightarrow> bool" where
  "heap_except_up h j \<longleftrightarrow>
     (\<forall>k<length h. 0 < k \<longrightarrow> k \<noteq> j \<longrightarrow> ScheduleTime (h ! parent k) \<le> ScheduleTime (h ! k))
     \<and> (\<forall>k<length h. 0 < k \<longrightarrow> parent k = j \<longrightarrow> 0 < j \<longrightarrow>
           ScheduleTime (h ! parent j) \<le> ScheduleTime (h ! k))"

text \<open>
  The heap order on the first \<open>n\<close> slots with slot \<open>i\<close> possibly greater than its
  children: every slot whose parent is not \<open>i\<close> is in order with its parent, and the
  children of \<open>i\<close> are in order with the parent of \<open>i\<close>.
\<close>

definition heap_except_down :: "JobHeap \<Rightarrow> nat \<Rightarrow> nat \<Rightarrow> bool" where
  "heap_except_down h i n \<longleftrightarrow>
     (\<forall>k<n. 0 < k \<longrightarrow> parent k \<noteq> i \<longrightarrow> ScheduleTime (h ! parent k) \<le> ScheduleTime (h ! k))
     \<and> (\<forall>k<n. 0 < k \<longrightarrow> parent k = i \<longrightarrow> 0 < i \<longrightarrow>
           ScheduleTime (h ! parent i) \<le> ScheduleTime (h ! k))"

text \<open>The child that \<^verbatim>\<open>down\<close> compares slot \<open>i\<close> with: the smaller, the left one on a tie.\<close>

definition down_child :: "JobHeap \<Rightarrow> nat \<Rightarrow> nat \<Rightarrow> nat" where
  "down_child h i n =
     (if 2 * i + 1 + 1 < n \<and> Less h (2 * i + 1 + 1) (2 * i + 1) then 2 * i + 1 + 1 else 2 * i + 1)"

section \<open>An example history\<close>

text \<open>Three jobs scheduled at clock reading 0, due at 30, 10 and 20.\<close>

definition three_scheduled :: Scheduler where
  "three_scheduled =
     fold apply_op
       [Schedule (mk_job ''a'' ''t'' High 0 3) 30 0, Schedule (mk_job ''b'' ''t'' Low 0 3) 10 0,
        Schedule (mk_job ''c'' ''t'' Medium 0 3) 20 0]
       (NewScheduler NewQueue)"

section \<open>Facts about the store\<close>

lemmas Priority_defs = High_def Medium_def Low_def

lemma RemoveJob_absent: "\<forall>j \<in> set jobs. ID j \<noteq> ID job \<Longrightarrow> RemoveJob jobs job = jobs"
  by (induction jobs) auto

lemma RemoveJob_present:
  "\<exists>j \<in> set jobs. ID j = ID job \<Longrightarrow> Suc (length (RemoveJob jobs job)) = length jobs"
  by (induction jobs) auto

lemma RemoveJob_length_le: "length (RemoveJob jobs job) \<le> length jobs"
  by (induction jobs) auto

lemma RemoveJob_length_ge: "length jobs \<le> Suc (length (RemoveJob jobs job))"
  by (induction jobs) auto

lemma RemoveJob_first:
  "\<forall>j \<in> set pre. ID j \<noteq> ID job \<Longrightarrow> ID x = ID job \<Longrightarrow>
   RemoveJob (pre @ x # post) job = pre @ post"
  by (induction pre) auto

section \<open>Facts about the example jobs\<close>

lemma mk_job_sel [simp]:
  "ID (mk_job i to p rc m) = i"
  "Type (mk_job i to p rc m) = ''email''"
  "Payload (mk_job i to p rc m) = [''to'' \<mapsto> to]"
  "Priority (mk_job i to p rc m) = p"
  "RetryCount (mk_job i to p rc m) = rc"
  "MaxRetries (mk_job i to p rc m) = m"
  "CreatedAt (mk_job i to p rc m) = 0"
  by (simp_all add: mk_job_def)

section \<open>Claims about the store\<close>

text \<open>
  C9. A job whose priority is none of High, Medium and Low falls through the switch of
  \<^verbatim>\<open>AddJob\<close> and of \<^verbatim>\<open>MoveJobToDeadLetterQueue\<close>: both return (neither has an error
  result) and the store, every pending and every dead-letter lane, is what it was.
\<close>

theorem C9_invalid_priority_dropped:
  "Priority job \<notin> {High, Medium, Low} \<Longrightarrow>
   AddJob job q = q \<and> MoveJobToDeadLetterQueue job q = q"
  by (simp add: AddJob_def MoveJobToDeadLetterQueue_def)

theorem C9_invalid_priority_dropped_witness:
  "Priority (mk_job ''j7'' ''a@b.c'' 7 0 3) \<notin> {High, Medium, Low} \<and>
   AddJob (mk_job ''j7'' ''a@b.c'' 7 0 3) NewQueue = NewQueue \<and>
   MoveJobToDeadLetterQueue (mk_job ''j7'' ''a@b.c'' 7 0 3) NewQueue = NewQueue"
  using C9_invalid_priority_dropped [of "mk_job ''j7'' ''a@b.c'' 7 0 3" NewQueue]
  by (simp add: Priority_defs)

text \<open>
  C6. When no entry of the lane of the job's priority carries the job's ID,
  \<^verbatim>\<open>RemoveJobFromQueue\<close> returns the store unchanged: the scanned lane, the other pending
  lanes and all dead-letter lanes (it has no error result).
\<close>

theorem C6_Remove_absent_noop:
  "\<forall>j \<in> set (queue q (Priority job)). ID j \<noteq> ID job \<Longrightarrow> RemoveJobFromQueue job q = q"
  by (auto simp: RemoveJobFromQueue_def RemoveJob_absent)

theorem C6_Remove_absent_noop_witness:
  "queue (AddJob (mk_job ''a'' ''a@b.c'' High 0 3) NewQueue) (Priority (mk_job ''b'' ''a@b.c'' High 0 3))
     = [mk_job ''a'' ''a@b.c'' High 0 3] \<and>
   ID (mk_job ''a'' ''a@b.c'' High 0 3) \<noteq> ID (mk_job ''b'' ''a@b.c'' High 0 3) \<and>
   RemoveJobFromQueue (mk_job ''b'' ''a@b.c'' High 0 3) (AddJob (mk_job ''a'' ''a@b.c'' High 0 3) NewQueue)
     = AddJob (mk_job ''a'' ''a@b.c'' High 0 3) NewQueue"
proof -
  have l: "queue (AddJob (mk_job ''a'' ''a@b.c'' High 0 3) NewQueue) (Priority (mk_job ''b'' ''a@b.c'' High 0 3))
     = [mk_job ''a'' ''a@b.c'' High 0 3]"
    by (simp add: AddJob_def NewQueue_def)
  have h: "\<forall>j \<in> set (queue (AddJob (mk_job ''a'' ''a@b.c'' High 0 3) NewQueue)
                   (Priority (mk_job ''b'' ''a@b.c'' High 0 3))). ID j \<noteq> ID (mk_job ''b'' ''a@b.c'' High 0 3)"
    unfolding l by simp
  from l C6_Remove_absent_noop [OF h] show ?thesis by simp
qed

text \<open>
  C5. \<^verbatim>\<open>GetJob\<close> returns an error exactly when the High, Medium and Low pending lanes are
  all empty, and then the store is untouched; otherwise it returns a job. The same holds
  of \<^verbatim>\<open>GetDeadLetterJob\<close> and the three dead-letter lanes.
\<close>

theorem C5_Empty_iff_all_lanes_empty:
  "((\<exists>e. fst (GetJob q) = Inl e) \<longleftrightarrow> queue q High = [] \<and> queue q Medium = [] \<and> queue q Low = [])
   \<and> ((\<exists>e. fst (GetJob q) = Inl e) \<longrightarrow> snd (GetJob q) = q)
   \<and> (\<not> (queue q High = [] \<and> queue q Medium = [] \<and> queue q Low = []) \<longrightarrow> (\<exists>j. fst (GetJob q) = Inr j))
   \<and> ((\<exists>e. fst (GetDeadLetterJob q) = Inl e) \<longleftrightarrow>
        deadLetterQueue q High = [] \<and> deadLetterQueue q Medium = [] \<and> deadLetterQueue q Low = [])
   \<and> ((\<exists>e. fst (GetDeadLetterJob q) = Inl e) \<longrightarrow> snd (GetDeadLetterJob q) = q)
   \<and> (\<not> (deadLetterQueue q High = [] \<and> deadLetterQueue q Medium = [] \<and> deadLetterQueue q Low = [])
        \<longrightarrow> (\<exists>j. fst (GetDeadLetterJob q) = Inr j))"
  by (simp add: GetJob_def GetDeadLetterJob_def)

theorem C5_Empty_iff_all_lanes_empty_witness:
  "fst (GetJob NewQueue) = Inl NoJobFound \<and> snd (GetJob NewQueue) = NewQueue \<and>
   fst (GetDeadLetterJob NewQueue) = Inl NoJobFound \<and> snd (GetDeadLetterJob NewQueue) = NewQueue \<and>
   fst (GetJob (AddJob (mk_job ''a'' ''a@b.c'' Low 0 3) NewQueue)) = Inr (mk_job ''a'' ''a@b.c'' Low 0 3) \<and>
   fst (GetDeadLetterJob (MoveJobToDeadLetterQueue (mk_job ''a'' ''a@b.c'' Low 0 3) NewQueue))
     = Inr (mk_job ''a'' ''a@b.c'' Low 0 3)"
  using C5_Empty_iff_all_lanes_empty [of NewQueue]
    C5_Empty_iff_all_lanes_empty [of "AddJob (mk_job ''a'' ''a@b.c'' Low 0 3) NewQueue"]
    C5_Empty_iff_all_lanes_empty [of "MoveJobToDeadLetterQueue (mk_job ''a'' ''a@b.c'' Low 0 3) NewQueue"]
  by (simp add: GetJob_def GetDeadLetterJob_def NewQueue_def AddJob_def
      MoveJobToDeadLetterQueue_def Priority_defs)

text \<open>
  C4, as amended. For a job whose priority is High, Medium or Low,
  \<^verbatim>\<open>MoveJobToDeadLetterQueue\<close> cuts the first entry with the job's ID out of the pending
  lane of that priority (the lane is unchanged when there is none) and appends the job
  to the dead-letter lane of that priority, once: the pending lane loses at most one
  entry, exactly one when an entry matches, the dead-letter lane gains exactly one, and
  no other lane changes. The method is one step of the store, as the mutex makes it.
\<close>

theorem C4_MoveToDeadLetter:
  "Priority job \<in> {High, Medium, Low} \<Longrightarrow>
   deadLetterQueue (MoveJobToDeadLetterQueue job q) (Priority job)
     = deadLetterQueue q (Priority job) @ [job]
   \<and> length (deadLetterQueue (MoveJobToDeadLetterQueue job q) (Priority job))
     = length (deadLetterQueue q (Priority job)) + 1
   \<and> (\<forall>pre x post. queue q (Priority job) = pre @ x # post \<and> (\<forall>j \<in> set pre. ID j \<noteq> ID job)
         \<and> ID x = ID job \<longrightarrow> queue (MoveJobToDeadLetterQueue job q) (Priority job) = pre @ post)
   \<and> ((\<forall>j \<in> set (queue q (Priority job)). ID j \<noteq> ID job) \<longrightarrow>
        queue (MoveJobToDeadLetterQueue job q) (Priority job) = queue q (Priority job))
   \<and> ((\<exists>j \<in> set (queue q (Priority job)). ID j = ID job) \<longrightarrow>
        length (queue (MoveJobToDeadLetterQueue job q) (Priority job)) + 1
          = length (queue q (Priority job)))
   \<and> length (queue (MoveJobToDeadLetterQueue job q) (Priority job)) \<le> length (queue q (Priority job))
   \<and> length (queue q (Priority job)) \<le> length (queue (MoveJobToDeadLetterQueue job q) (Priority job)) + 1
   \<and> (\<forall>p. p \<noteq> Priority job \<longrightarrow>
         queue (MoveJobToDeadLetterQueue job q) p = queue q p
         \<and> deadLetterQueue (MoveJobToDeadLetterQueue job q) p = deadLetterQueue q p)"
proof -
  assume p: "Priority job \<in> {High, Medium, Low}"
  define l where "l = queue q (Priority job)"
  have pend: "queue (MoveJobToDeadLetterQueue job q) (Priority job) = RemoveJob l job"
    using p by (auto simp: MoveJobToDeadLetterQueue_def l_def)
  have dead: "deadLetterQueue (MoveJobToDeadLetterQueue job q) (Priority job)
     = deadLetterQueue q (Priority job) @ [job]"
    using p by (auto simp: MoveJobToDeadLetterQueue_def)
  have frame: "\<forall>p. p \<noteq> Priority job \<longrightarrow>
         queue (MoveJobToDeadLetterQueue job q) p = queue q p
         \<and> deadLetterQueue (MoveJobToDeadLetterQueue job q) p = deadLetterQueue q p"
    using p by (auto simp: MoveJobToDeadLetterQueue_def)
  have cut: "\<forall>pre x post. l = pre @ x # post \<and> (\<forall>j \<in> set pre. ID j \<noteq> ID job)
         \<and> ID x = ID job \<longrightarrow> RemoveJob l job = pre @ post"
    by (auto simp: RemoveJob_first)
  have absent: "(\<forall>j \<in> set l. ID j \<noteq> ID job) \<longrightarrow> RemoveJob l job = l"
    by (simp add: RemoveJob_absent)
  have present: "(\<exists>j \<in> set l. ID j = ID job) \<longrightarrow> length (RemoveJob l job) + 1 = length l"
    using RemoveJob_present [of l job] by simp
  have le: "length (RemoveJob l job) \<le> length l"
    by (rule RemoveJob_length_le)
  have ge: "length l \<le> length (RemoveJob l job) + 1"
    using RemoveJob_length_ge [of l job] by simp
  show ?thesis
    unfolding pend dead using cut absent present le ge frame
    unfolding l_def by simp
qed

theorem C4_MoveToDeadLetter_witness:
  "Priority (mk_job ''a'' ''x@y.z'' Medium 4 3) \<in> {High, Medium, Low} \<and>
   deadLetterQueue (MoveJobToDeadLetterQueue (mk_job ''a'' ''x@y.z'' Medium 4 3)
      (AddJob (mk_job ''a'' ''x@y.z'' Medium 3 3) NewQueue)) Medium = [mk_job ''a'' ''x@y.z'' Medium 4 3] \<and>
   queue (MoveJobToDeadLetterQueue (mk_job ''a'' ''x@y.z'' Medium 4 3)
      (AddJob (mk_job ''a'' ''x@y.z'' Medium 3 3) NewQueue)) Medium = [] \<and>
   deadLetterQueue (MoveJobToDeadLetterQueue (mk_job ''a'' ''x@y.z'' Medium 4 3) NewQueue) Medium
     = [mk_job ''a'' ''x@y.z'' Medium 4 3]"
proof -
  have h: "Priority (mk_job ''a'' ''x@y.z'' Medium 4 3) \<in> {High, Medium, Low}"
    by simp
  have l: "queue (AddJob (mk_job ''a'' ''x@y.z'' Medium 3 3) NewQueue) Medium
      = [] @ mk_job ''a'' ''x@y.z'' Medium 3 3 # []"
    by (simp add: AddJob_def NewQueue_def Priority_defs)
  have d: "deadLetterQueue (AddJob (mk_job ''a'' ''x@y.z'' Medium 3 3) NewQueue) Medium = []"
    by (simp add: AddJob_def NewQueue_def Priority_defs)
  have d0: "deadLetterQueue NewQueue Medium = []"
    by (simp add: NewQueue_def)
  from C4_MoveToDeadLetter [OF h, of "AddJob (mk_job ''a'' ''x@y.z'' Medium 3 3) NewQueue"]
    C4_MoveToDeadLetter [OF h, of NewQueue] h l d d0
  show ?thesis by simp
qed

text \<open>
  C4 as stated does not hold of every job: the zero value of \<^verbatim>\<open>Priority\<close> names no case of
  the switch, and the job reaches no dead-letter lane.
\<close>

theorem C4_counterexample:
  "length (deadLetterQueue (MoveJobToDeadLetterQueue (mk_job ''a'' ''x@y.z'' 0 4 3) NewQueue)
             (Priority (mk_job ''a'' ''x@y.z'' 0 4 3)))
   \<noteq> length (deadLetterQueue NewQueue (Priority (mk_job ''a'' ''x@y.z'' 0 4 3))) + 1
   \<and> GetAllDeadLetterJobs (MoveJobToDeadLetterQueue (mk_job ''a'' ''x@y.z'' 0 4 3) NewQueue)
       = ([], [], [])"
  by (simp add: MoveJobToDeadLetterQueue_def NewQueue_def Priority_defs GetAllDeadLetterJobs_def)

section \<open>Facts about draining the store\<close>

declare drain.simps [simp del]

lemma drain_lanes: "drain q = queue q High @ queue q Medium @ queue q Low"
proof (induction q rule: drain.induct)
  case (1 q)
  show ?case
  proof (cases "queue q High")
    case (Cons j js)
    then have g: "GetJob q = (Inr j, q\<lparr>queue := (queue q)(High := js)\<rparr>)"
      by (simp add: GetJob_def)
    from "1.IH" [OF g [symmetric] refl] g Cons show ?thesis
      by (simp add: drain.simps [of q] Priority_defs)
  next
    case hi: Nil
    show ?thesis
    proof (cases "queue q Medium")
      case (Cons j js)
      then have g: "GetJob q = (Inr j, q\<lparr>queue := (queue q)(Medium := js)\<rparr>)"
        using hi by (simp add: GetJob_def)
      from "1.IH" [OF g [symmetric] refl] g Cons hi show ?thesis
        by (simp add: drain.simps [of q] Priority_defs)
    next
      case me: Nil
      show ?thesis
      proof (cases "queue q Low")
        case (Cons j js)
        then have g: "GetJob q = (Inr j, q\<lparr>queue := (queue q)(Low := js)\<rparr>)"
          using hi me by (simp add: GetJob_def)
        from "1.IH" [OF g [symmetric] refl] g Cons hi me show ?thesis
          by (simp add: drain.simps [of q] Priority_defs)
      next
        case Nil
        then have "GetJob q = (Inl NoJobFound, q)"
          using hi me by (simp add: GetJob_def)
        then show ?thesis
          using hi me Nil by (simp add: drain.simps [of q])
      qed
    qed
  qed
qed

lemma AddJob_lane:
  "p \<in> {High, Medium, Low} \<Longrightarrow>
   queue (AddJob job q) p = queue q p @ (if Priority job = p then [job] else [])"
  by (auto simp: AddJob_def Priority_defs)

lemma AddJob_deadLetterQueue [simp]: "deadLetterQueue (AddJob job q) = deadLetterQueue q"
  by (simp add: AddJob_def)

lemma fold_AddJob_lane:
  "p \<in> {High, Medium, Low} \<Longrightarrow>
   queue (fold AddJob js q) p = queue q p @ filter (\<lambda>j. Priority j = p) js"
  by (induction js arbitrary: q) (simp_all add: AddJob_lane)

lemma mset_three_lanes:
  "\<forall>j \<in> set js. Priority j \<in> {High, Medium, Low} \<Longrightarrow>
   mset (filter (\<lambda>j. Priority j = High) js) + mset (filter (\<lambda>j. Priority j = Medium) js)
     + mset (filter (\<lambda>j. Priority j = Low) js) = mset js"
  by (induction js) (auto simp: Priority_defs)

section \<open>Claim about the order of retrieval\<close>

text \<open>
  C1. After any sequence of \<^verbatim>\<open>AddJob\<close> calls on a new store with jobs of priority High,
  Medium or Low, repeated \<^verbatim>\<open>GetJob\<close> returns all High jobs in the order they were added,
  then all Medium jobs in the order they were added, then all Low jobs in the order they
  were added, whatever the interleaving of the insertions; each job added is returned
  exactly once.
\<close>

theorem C1_priority_then_FIFO:
  "\<forall>j \<in> set js. Priority j \<in> {High, Medium, Low} \<Longrightarrow>
   drain (fold AddJob js NewQueue)
     = filter (\<lambda>j. Priority j = High) js @ filter (\<lambda>j. Priority j = Medium) js
       @ filter (\<lambda>j. Priority j = Low) js
   \<and> mset (drain (fold AddJob js NewQueue)) = mset js"
proof -
  assume valid: "\<forall>j \<in> set js. Priority j \<in> {High, Medium, Low}"
  have order: "drain (fold AddJob js NewQueue)
     = filter (\<lambda>j. Priority j = High) js @ filter (\<lambda>j. Priority j = Medium) js
       @ filter (\<lambda>j. Priority j = Low) js"
    by (simp add: drain_lanes fold_AddJob_lane NewQueue_def)
  from mset_three_lanes [OF valid] show ?thesis
    unfolding order by (simp add: add.assoc)
qed

theorem C1_priority_then_FIFO_witness:
  "drain (fold AddJob [mk_job ''l1'' ''t'' Low 0 3, mk_job ''m1'' ''t'' Medium 0 3,
          mk_job ''h1'' ''t'' High 0 3, mk_job ''l2'' ''t'' Low 0 3, mk_job ''h2'' ''t'' High 0 3] NewQueue)
   = [mk_job ''h1'' ''t'' High 0 3, mk_job ''h2'' ''t'' High 0 3, mk_job ''m1'' ''t'' Medium 0 3,
      mk_job ''l1'' ''t'' Low 0 3, mk_job ''l2'' ''t'' Low 0 3]"
  using C1_priority_then_FIFO [of "[mk_job ''l1'' ''t'' Low 0 3, mk_job ''m1'' ''t'' Medium 0 3,
          mk_job ''h1'' ''t'' High 0 3, mk_job ''l2'' ''t'' Low 0 3, mk_job ''h2'' ''t'' High 0 3]"]
  by (simp add: Priority_defs)

section \<open>Facts about the worker\<close>

lemma sint_of_nat_64: "n < 2 ^ 63 \<Longrightarrow> sint (of_nat n :: 64 word) = int n"
  by (simp add: signed_of_nat signed_take_bit_int_eq_self)

lemma sint_of_int_64: "- (2 ^ 63) \<le> k \<Longrightarrow> k < 2 ^ 63 \<Longrightarrow> sint (word_of_int k :: 64 word) = k"
  by (simp add: signed_of_int signed_take_bit_int_eq_self)

lemma sint_succ_64:
  assumes "sint (w :: 64 word) < 2 ^ 63 - 1"
  shows "sint (w + 1) = sint w + 1"
proof -
  have lo: "- (2 ^ 63) \<le> sint w"
    using sint_ge [of w] by simp
  have "sint (w + 1) = signed_take_bit 63 (sint w + 1)"
    by (simp add: sint_word_add)
  also have "\<dots> = sint w + 1"
    using assms lo by (simp add: signed_take_bit_int_eq_self)
  finally show ?thesis .
qed

lemma GetJob_single:
  "Priority j \<in> {High, Medium, Low} \<Longrightarrow> GetJob (AddJob j NewQueue) = (Inr j, NewQueue)"
  by (auto simp: GetJob_def AddJob_def NewQueue_def Priority_defs)

lemma GetJob_no_pending:
  "queue q = (\<lambda>_. []) \<Longrightarrow> GetJob q = (Inl NoJobFound, q)"
  by (simp add: GetJob_def)

lemma Move_from_new:
  "Priority j \<in> {High, Medium, Low} \<Longrightarrow>
   MoveJobToDeadLetterQueue j NewQueue
     = \<lparr>queue = (\<lambda>_. []), deadLetterQueue = (\<lambda>_. [])(Priority j := [j])\<rparr>"
  by (auto simp: MoveJobToDeadLetterQueue_def NewQueue_def)

lemma handleJob_RetryCount [simp]: "handleJob (j\<lparr>RetryCount := c\<rparr>) = handleJob j"
  by (simp add: handleJob_def)

lemma round_pending:
  assumes id: "ID j \<noteq> []" and fails: "handleJob j = Some e"
    and prio: "Priority j \<in> {High, Medium, Low}"
    and m: "0 \<le> sint (MaxRetries j)" "sint (MaxRetries j) < 2 ^ 63 - 1"
    and k: "int k \<le> sint (MaxRetries j)"
  shows "round (pending_after j k) =
           (if int (Suc k) \<le> sint (MaxRetries j) then pending_after j (Suc k)
            else dead_after j (Suc k))"
proof -
  let ?jk = "j\<lparr>RetryCount := of_nat k\<rparr>"
  let ?j' = "j\<lparr>RetryCount := of_nat (Suc k)\<rparr>"
  have get: "GetJob (AddJob ?jk NewQueue) = (Inr ?jk, NewQueue)"
    using prio by (simp add: GetJob_single)
  have "Suc k < 2 ^ 63"
    using k m by (simp add: nat_less_iff)
  then have rc: "sint (of_nat k + 1 :: 64 word) = int (Suc k)"
    using sint_of_nat_64 [of "Suc k"] by (simp add: add.commute)
  have upd: "?jk\<lparr>RetryCount := of_nat k + 1\<rparr> = ?j'"
    by simp
  show ?thesis
  proof (cases "int (Suc k) \<le> sint (MaxRetries j)")
    case True
    then have "Start_iteration (pending_after j k) =
        \<lparr>store = NewQueue, timers = [\<lparr>delay = retry_delay (of_nat (Suc k)), jobCopy = ?j'\<rparr>],
         handled = map (\<lambda>i. j\<lparr>RetryCount := of_nat i\<rparr>) [0..<Suc k]\<rparr>"
      using id fails rc by (simp add: Start_iteration_def pending_after_def get Let_def add.commute)
    then show ?thesis
      using True by (simp add: round_def fire_timers_def pending_after_def)
  next
    case False
    then have "Start_iteration (pending_after j k) =
        \<lparr>store = MoveJobToDeadLetterQueue ?j' NewQueue, timers = [],
         handled = map (\<lambda>i. j\<lparr>RetryCount := of_nat i\<rparr>) [0..<Suc k]\<rparr>"
      using id fails rc by (simp add: Start_iteration_def pending_after_def get Let_def add.commute)
    then show ?thesis
      using False prio by (simp add: round_def fire_timers_def dead_after_def Move_from_new)
  qed
qed

lemma round_dead: "round (dead_after j k) = dead_after j k"
  by (simp add: round_def fire_timers_def Start_iteration_def dead_after_def GetJob_no_pending)

lemma rounds_dead: "rounds n (dead_after j k) = dead_after j k"
  by (induction n) (simp_all add: round_dead)

lemma rounds_add: "rounds (a + b) s = rounds b (rounds a s)"
  by (induction a arbitrary: s) simp_all

lemma rounds_pending:
  assumes id: "ID j \<noteq> []" and fails: "handleJob j = Some e"
    and prio: "Priority j \<in> {High, Medium, Low}"
    and m: "0 \<le> sint (MaxRetries j)" "sint (MaxRetries j) < 2 ^ 63 - 1"
  shows "int k \<le> sint (MaxRetries j) \<Longrightarrow> rounds k (pending_after j 0) = pending_after j k"
proof (induction k)
  case 0
  show ?case by simp
next
  case (Suc k)
  then have k: "int k \<le> sint (MaxRetries j)" by simp
  have "rounds (Suc k) (pending_after j 0) = round (rounds k (pending_after j 0))"
    using rounds_add [of k 1 "pending_after j 0"] by simp
  also have "\<dots> = round (pending_after j k)"
    using Suc.IH [OF k] by simp
  also have "\<dots> = pending_after j (Suc k)"
    using round_pending [OF id fails prio m k] Suc.prems by simp
  finally show ?case .
qed

lemma rounds_exhausted:
  assumes id: "ID j \<noteq> []" and fails: "handleJob j = Some e"
    and prio: "Priority j \<in> {High, Medium, Low}"
    and m: "0 \<le> sint (MaxRetries j)" "sint (MaxRetries j) < 2 ^ 63 - 1"
    and n: "nat (sint (MaxRetries j)) < n"
  shows "rounds n (pending_after j 0) = dead_after j (Suc (nat (sint (MaxRetries j))))"
proof -
  let ?m = "nat (sint (MaxRetries j))"
  have le: "int ?m \<le> sint (MaxRetries j)"
    using m by simp
  obtain d where n_eq: "n = ?m + (1 + d)"
    using n by (metis Suc_eq_plus1_left less_iff_Suc_add add.commute add.assoc)
  have "rounds n (pending_after j 0) = rounds (1 + d) (rounds ?m (pending_after j 0))"
    unfolding n_eq by (rule rounds_add)
  also have "\<dots> = rounds (1 + d) (pending_after j ?m)"
    using rounds_pending [OF id fails prio m le] by simp
  also have "\<dots> = rounds d (round (pending_after j ?m))"
    by simp
  also have "round (pending_after j ?m) = dead_after j (Suc ?m)"
    using round_pending [OF id fails prio m le] m by simp
  finally show ?thesis
    by (simp add: rounds_dead)
qed

lemma round_pending_max:
  assumes id: "ID j \<noteq> []" and fails: "handleJob j = Some e"
    and prio: "Priority j \<in> {High, Medium, Low}"
    and m: "sint (MaxRetries j) = 2 ^ 63 - 1"
  shows "round (pending_after j k) = pending_after j (Suc k)"
proof -
  let ?jk = "j\<lparr>RetryCount := of_nat k\<rparr>"
  let ?j' = "j\<lparr>RetryCount := of_nat (Suc k)\<rparr>"
  have get: "GetJob (AddJob ?jk NewQueue) = (Inr ?jk, NewQueue)"
    using prio by (simp add: GetJob_single)
  have "sint (of_nat k + 1 :: 64 word) < 2 ^ 63"
    using sint_lt [of "of_nat k + 1 :: 64 word"] by simp
  then have le: "sint (of_nat k + 1 :: 64 word) \<le> sint (MaxRetries j)"
    using m by simp
  have "Start_iteration (pending_after j k) =
        \<lparr>store = NewQueue, timers = [\<lparr>delay = retry_delay (of_nat (Suc k)), jobCopy = ?j'\<rparr>],
         handled = map (\<lambda>i. j\<lparr>RetryCount := of_nat i\<rparr>) [0..<Suc k]\<rparr>"
    using id fails le by (simp add: Start_iteration_def pending_after_def get Let_def add.commute)
  then show ?thesis
    by (simp add: round_def fire_timers_def pending_after_def)
qed

lemma rounds_pending_max:
  assumes id: "ID j \<noteq> []" and fails: "handleJob j = Some e"
    and prio: "Priority j \<in> {High, Medium, Low}"
    and m: "sint (MaxRetries j) = 2 ^ 63 - 1"
  shows "rounds n (pending_after j 0) = pending_after j n"
proof (induction n)
  case 0
  show ?case by simp
next
  case (Suc n)
  have "rounds (Suc n) (pending_after j 0) = round (rounds n (pending_after j 0))"
    using rounds_add [of n 1 "pending_after j 0"] by simp
  also have "\<dots> = pending_after j (Suc n)"
    unfolding Suc.IH using id fails prio m by (rule round_pending_max)
  finally show ?case .
qed

lemma submit_pending:
  assumes "RetryCount j = 0"
  shows "submit j = pending_after j 0"
proof -
  have "j\<lparr>RetryCount := RetryCount j\<rparr> = j"
    by simp
  then have "j\<lparr>RetryCount := 0\<rparr> = j"
    using assms by simp
  then show ?thesis
    by (simp add: submit_def pending_after_def)
qed

lemma sint_backoff_64:
  assumes "n \<le> 33"
  shows "sint (2 ^ n * 1000000000 :: 64 word) = 2 ^ n * 1000000000"
proof -
  have "(2::int) ^ n \<le> 2 ^ 33"
    using assms by (intro power_increasing) simp_all
  then have hi: "(2::int) ^ n * 1000000000 < 2 ^ 63"
    by simp
  have lo: "- (2 ^ 63) \<le> (2::int) ^ n * 1000000000"
    by (rule order_trans [of _ 0]) simp_all
  have "(2 ^ n * 1000000000 :: 64 word) = word_of_int (2 ^ n * 1000000000)"
    by simp
  then show ?thesis
    using sint_of_int_64 [OF lo hi] by simp
qed

lemma retry_delay_exact:
  assumes "0 \<le> sint n" and "sint n \<le> 33"
  shows "\<exists>d. retry_delay n = Some d \<and> sint d = 2 ^ nat (sint n) * 1000000000"
proof -
  have "nat (sint n) \<le> 33"
    using assms by simp
  from sint_backoff_64 [OF this] assms show ?thesis
    by (simp add: retry_delay_def pow2_Duration_def Second_def)
qed

section \<open>Claims about the worker\<close>

text \<open>
  C2, as amended. Take a job with a non-empty ID, a priority among High, Medium and Low,
  \<open>RetryCount\<close> 0 and \<open>MaxRetries = m\<close> with \<open>0 \<le> m < 2^63 - 1\<close>, whose handler fails
  (it then fails on every attempt, as only \<open>RetryCount\<close> changes), alone in a new
  store with one worker. While at most \<open>m\<close> rounds have passed the dead-letter lanes are
  empty, the job has been handled once per round and waits in its pending lane with
  that many failures counted. After any number of rounds above \<open>m\<close> it has been handled
  exactly \<open>m + 1\<close> times, with retry counts \<open>0, \<dots>, m\<close>; it is the only entry of the
  dead-letter lane of its priority, with \<open>RetryCount = m + 1\<close>; and nothing is pending.
\<close>

theorem C2_retry_until_dead_letter:
  assumes id: "ID j \<noteq> []" and fails: "handleJob j = Some e"
    and prio: "Priority j \<in> {High, Medium, Low}"
    and fresh: "RetryCount j = 0"
    and m: "0 \<le> sint (MaxRetries j)" "sint (MaxRetries j) < 2 ^ 63 - 1"
  shows "(\<forall>n. n \<le> nat (sint (MaxRetries j)) \<longrightarrow>
            deadLetterQueue (store (rounds n (submit j))) = (\<lambda>_. [])
            \<and> length (handled (rounds n (submit j))) = n
            \<and> queue (store (rounds n (submit j))) (Priority j) = [j\<lparr>RetryCount := of_nat n\<rparr>])
       \<and> (\<forall>n. nat (sint (MaxRetries j)) < n \<longrightarrow>
            length (handled (rounds n (submit j))) = nat (sint (MaxRetries j)) + 1
            \<and> handled (rounds n (submit j))
                = map (\<lambda>i. j\<lparr>RetryCount := of_nat i\<rparr>) [0..<nat (sint (MaxRetries j)) + 1]
            \<and> deadLetterQueue (store (rounds n (submit j)))
                = (\<lambda>_. [])(Priority j := [j\<lparr>RetryCount := of_nat (nat (sint (MaxRetries j)) + 1)\<rparr>])
            \<and> queue (store (rounds n (submit j))) = (\<lambda>_. [])
            \<and> timers (rounds n (submit j)) = [])
       \<and> sint (of_nat (nat (sint (MaxRetries j)) + 1) :: 64 word) = sint (MaxRetries j) + 1"
proof -
  let ?m = "nat (sint (MaxRetries j))"
  have early: "deadLetterQueue (store (rounds n (submit j))) = (\<lambda>_. [])
            \<and> length (handled (rounds n (submit j))) = n
            \<and> queue (store (rounds n (submit j))) (Priority j) = [j\<lparr>RetryCount := of_nat n\<rparr>]"
    if "n \<le> ?m" for n
  proof -
    from that m have "int n \<le> sint (MaxRetries j)"
      by simp
    from rounds_pending [OF id fails prio m this] show ?thesis
      using prio by (auto simp: submit_pending [OF fresh] pending_after_def AddJob_def NewQueue_def)
  qed
  have late: "length (handled (rounds n (submit j))) = ?m + 1
            \<and> handled (rounds n (submit j)) = map (\<lambda>i. j\<lparr>RetryCount := of_nat i\<rparr>) [0..<?m + 1]
            \<and> deadLetterQueue (store (rounds n (submit j)))
                = (\<lambda>_. [])(Priority j := [j\<lparr>RetryCount := of_nat (?m + 1)\<rparr>])
            \<and> queue (store (rounds n (submit j))) = (\<lambda>_. [])
            \<and> timers (rounds n (submit j)) = []"
    if "?m < n" for n
    using rounds_exhausted [OF id fails prio m that]
    by (simp add: submit_pending [OF fresh] dead_after_def)
  have "?m + 1 < 2 ^ 63"
    using m by (simp add: nat_less_iff)
  then have "sint (of_nat (?m + 1) :: 64 word) = int (?m + 1)"
    by (rule sint_of_nat_64)
  then have count: "sint (of_nat (?m + 1) :: 64 word) = sint (MaxRetries j) + 1"
    using m by simp
  from early late count show ?thesis
    by blast
qed

theorem C2_retry_until_dead_letter_witness:
  "length (handled (rounds 5 (submit (mk_job ''x'' ''error@error.com'' High 0 1)))) = 2 \<and>
   deadLetterQueue (store (rounds 5 (submit (mk_job ''x'' ''error@error.com'' High 0 1)))) High
     = [mk_job ''x'' ''error@error.com'' High 2 1] \<and>
   deadLetterQueue (store (rounds 1 (submit (mk_job ''x'' ''error@error.com'' High 0 1)))) High = [] \<and>
   queue (store (rounds 1 (submit (mk_job ''x'' ''error@error.com'' High 0 1)))) High
     = [mk_job ''x'' ''error@error.com'' High 1 1]"
proof -
  let ?j = "mk_job ''x'' ''error@error.com'' High 0 1"
  have id: "ID ?j \<noteq> []" by simp
  have fails: "handleJob ?j = Some SimulatedError" by (simp add: handleJob_def)
  have prio: "Priority ?j \<in> {High, Medium, Low}" by simp
  have fresh: "RetryCount ?j = 0" by simp
  have m: "0 \<le> sint (MaxRetries ?j)" "sint (MaxRetries ?j) < 2 ^ 63 - 1" by simp_all
  have n: "nat (sint (MaxRetries ?j)) = 1" by simp
  have j2: "?j\<lparr>RetryCount := of_nat (1 + 1)\<rparr> = mk_job ''x'' ''error@error.com'' High 2 1"
    by (simp add: mk_job_def)
  have j1: "?j\<lparr>RetryCount := of_nat 1\<rparr> = mk_job ''x'' ''error@error.com'' High 1 1"
    by (simp add: mk_job_def)
  note T = C2_retry_until_dead_letter [OF id fails prio fresh m, unfolded n]
  from T [THEN conjunct1, THEN spec, of 1]
  have early: "deadLetterQueue (store (rounds 1 (submit ?j))) = (\<lambda>_. [])"
    "queue (store (rounds 1 (submit ?j))) (Priority ?j) = [?j\<lparr>RetryCount := of_nat 1\<rparr>]"
    by simp_all
  from T [THEN conjunct2, THEN conjunct1, THEN spec, of 5]
  have late: "length (handled (rounds 5 (submit ?j))) = 1 + 1"
    "deadLetterQueue (store (rounds 5 (submit ?j)))
       = (\<lambda>_. [])(Priority ?j := [?j\<lparr>RetryCount := of_nat (1 + 1)\<rparr>])"
    by simp_all
  show ?thesis
    using early late unfolding j1 j2 by simp
qed

text \<open>
  C2 as stated fails for a job with an empty ID: the worker dequeues it, does not
  handle it and does not put it anywhere. After the first round nothing is pending, the
  dead-letter lanes are empty, and a further round changes nothing. It also fails at
  the largest \<open>MaxRetries\<close>, \<open>m = 2^63 - 1\<close>: no \<open>RetryCount\<close> exceeds it, and after
  \<open>m + 2\<close> rounds the job has been handled \<open>m + 2\<close> times and is in no dead-letter lane.
\<close>

theorem C2_counterexample:
  "handled (round (submit (mk_job [] ''error@error.com'' High 0 1))) = [] \<and>
   timers (round (submit (mk_job [] ''error@error.com'' High 0 1))) = [] \<and>
   GetAllJobs (store (round (submit (mk_job [] ''error@error.com'' High 0 1)))) = ([], [], []) \<and>
   GetAllDeadLetterJobs (store (round (submit (mk_job [] ''error@error.com'' High 0 1)))) = ([], [], []) \<and>
   round (round (submit (mk_job [] ''error@error.com'' High 0 1)))
     = round (submit (mk_job [] ''error@error.com'' High 0 1)) \<and>
   sint (MaxRetries (mk_job ''x'' ''error@error.com'' High 0 9223372036854775807)) + 2
     = 9223372036854775809 \<and>
   length (handled (rounds 9223372036854775809
     (submit (mk_job ''x'' ''error@error.com'' High 0 9223372036854775807)))) = 9223372036854775809 \<and>
   GetAllDeadLetterJobs (store (rounds 9223372036854775809
     (submit (mk_job ''x'' ''error@error.com'' High 0 9223372036854775807)))) = ([], [], [])"
proof -
  have r: "round (submit (mk_job [] ''error@error.com'' High 0 1))
      = \<lparr>store = NewQueue, timers = [], handled = []\<rparr>"
    by (simp add: round_def fire_timers_def Start_iteration_def submit_def GetJob_single)
  have rr: "round \<lparr>store = NewQueue, timers = [], handled = []\<rparr>
      = \<lparr>store = NewQueue, timers = [], handled = []\<rparr>"
    by (simp add: round_def fire_timers_def Start_iteration_def GetJob_no_pending NewQueue_def)
  have empty_id: "handled (round (submit (mk_job [] ''error@error.com'' High 0 1))) = [] \<and>
   timers (round (submit (mk_job [] ''error@error.com'' High 0 1))) = [] \<and>
   GetAllJobs (store (round (submit (mk_job [] ''error@error.com'' High 0 1)))) = ([], [], []) \<and>
   GetAllDeadLetterJobs (store (round (submit (mk_job [] ''error@error.com'' High 0 1)))) = ([], [], []) \<and>
   round (round (submit (mk_job [] ''error@error.com'' High 0 1)))
     = round (submit (mk_job [] ''error@error.com'' High 0 1))"
    unfolding r rr by (simp add: GetAllJobs_def GetAllDeadLetterJobs_def NewQueue_def)
  let ?j = "mk_job ''x'' ''error@error.com'' High 0 9223372036854775807"
  have id: "ID ?j \<noteq> []" by simp
  have fails: "handleJob ?j = Some SimulatedError" by (simp add: handleJob_def)
  have prio: "Priority ?j \<in> {High, Medium, Low}" by simp
  have m: "sint (MaxRetries ?j) = 2 ^ 63 - 1" by simp
  have "rounds 9223372036854775809 (submit ?j) = pending_after ?j 9223372036854775809"
    using rounds_pending_max [OF id fails prio m] by (simp add: submit_pending)
  then have wrap: "length (handled (rounds 9223372036854775809 (submit ?j))) = 9223372036854775809 \<and>
      GetAllDeadLetterJobs (store (rounds 9223372036854775809 (submit ?j))) = ([], [], [])"
    by (simp add: pending_after_def GetAllDeadLetterJobs_def NewQueue_def)
  have "sint (MaxRetries ?j) + 2 = 9223372036854775809" by simp
  with empty_id wrap show ?thesis
    by blast
qed

text \<open>
  C8, as amended. When the handler fails for a dequeued job and the incremented
  \<open>RetryCount\<close> is at most \<open>MaxRetries\<close> and lies between 0 and 33, the goroutine that
  re-enqueues the job sleeps exactly \<open>2 ^ RetryCount\<close> seconds (the delay is counted in
  nanoseconds), with \<open>RetryCount\<close> the incremented value: 2 seconds before the first
  retry, 4 before the second.
\<close>

theorem C8_backoff_delay:
  assumes "GetJob (store s) = (Inr j, q)" and "ID j \<noteq> []" and "handleJob j = Some e"
    and "sint (RetryCount j + 1) \<le> sint (MaxRetries j)"
    and "0 \<le> sint (RetryCount j + 1)" and "sint (RetryCount j + 1) \<le> 33"
  shows "\<exists>d. timers (Start_iteration s)
              = timers s @ [\<lparr>delay = Some d, jobCopy = j\<lparr>RetryCount := RetryCount j + 1\<rparr>\<rparr>]
           \<and> sint d = 2 ^ nat (sint (RetryCount j + 1)) * 1000000000"
proof -
  from retry_delay_exact [OF assms(5,6)]
  obtain d where d: "retry_delay (RetryCount j + 1) = Some d"
    "sint d = 2 ^ nat (sint (RetryCount j + 1)) * 1000000000"
    by blast
  have "timers (Start_iteration s)
      = timers s @ [\<lparr>delay = Some d, jobCopy = j\<lparr>RetryCount := RetryCount j + 1\<rparr>\<rparr>]"
    using assms(1-4) d(1) by (simp add: Start_iteration_def Let_def)
  with d(2) show ?thesis
    by blast
qed

theorem C8_backoff_delay_witness:
  "map (\<lambda>t. map_option sint (delay t))
     (timers (Start_iteration (submit (mk_job ''x'' ''error@error.com'' High 0 3)))) = [Some 2000000000] \<and>
   map (\<lambda>t. map_option sint (delay t))
     (timers (Start_iteration (submit (mk_job ''x'' ''error@error.com'' High 1 3)))) = [Some 4000000000]"
proof -
  have a: "map (\<lambda>t. map_option sint (delay t))
     (timers (Start_iteration (submit (mk_job ''x'' ''error@error.com'' High rc 3)))) = [Some (2 * 2 ^ nat (sint rc) * 1000000000)]"
    if "rc = 0 \<or> rc = 1" for rc :: "64 word"
  proof -
    let ?j = "mk_job ''x'' ''error@error.com'' High rc 3"
    have g: "GetJob (store (submit ?j)) = (Inr ?j, NewQueue)"
      by (simp add: submit_def GetJob_single)
    have id: "ID ?j \<noteq> []" by simp
    have fails: "handleJob ?j = Some SimulatedError" by (simp add: handleJob_def)
    have le: "sint (RetryCount ?j + 1) \<le> sint (MaxRetries ?j)"
      using that by auto
    have lo: "0 \<le> sint (RetryCount ?j + 1)"
      using that by auto
    have hi: "sint (RetryCount ?j + 1) \<le> 33"
      using that by auto
    from C8_backoff_delay [OF g id fails le lo hi] that show ?thesis
      by (auto simp: submit_def)
  qed
  from a [of 0] a [of 1] show ?thesis
    by simp
qed

text \<open>
  C8 as stated fails from the 34th power on: \<open>2 ^ 34\<close> seconds are more nanoseconds than an
  \<^verbatim>\<open>int64\<close> holds, and the product wraps to a negative delay.
\<close>

theorem C8_counterexample:
  "sint (RetryCount (mk_job ''x'' ''error@error.com'' High 33 40) + 1)
     \<le> sint (MaxRetries (mk_job ''x'' ''error@error.com'' High 33 40)) \<and>
   map (\<lambda>t. map_option sint (delay t))
     (timers (Start_iteration (submit (mk_job ''x'' ''error@error.com'' High 33 40))))
     = [Some (- 1266874889709551616)] \<and>
   (- 1266874889709551616 :: int) \<noteq> 2 ^ 34 * 1000000000"
  by (simp add: submit_def Start_iteration_def GetJob_single handleJob_def Let_def
      retry_delay_def pow2_Duration_def Second_def)

text \<open>
  C10, as amended. When the handler fails for a dequeued job (the job has a non-empty
  ID, or the handler is not called) whose \<open>RetryCount\<close> is below the largest \<^verbatim>\<open>int\<close>,
  the worker either starts a goroutine that will re-enqueue a copy of the job, or moves
  a copy to the dead-letter store; in both cases the copy has the job's ID, type,
  payload, priority, \<open>MaxRetries\<close> and creation time, and a \<open>RetryCount\<close> greater by one.
  When the goroutine wakes, that copy is what \<^verbatim>\<open>AddJob\<close> receives.
\<close>

theorem C10_failed_job_frame:
  assumes "GetJob (store s) = (Inr j, q)" and "ID j \<noteq> []" and "handleJob j = Some e"
    and "sint (RetryCount j) < 2 ^ 63 - 1"
  shows "\<exists>j'. ID j' = ID j \<and> Type j' = Type j \<and> Payload j' = Payload j
           \<and> Priority j' = Priority j \<and> MaxRetries j' = MaxRetries j \<and> CreatedAt j' = CreatedAt j
           \<and> sint (RetryCount j') = sint (RetryCount j) + 1
           \<and> (if sint (RetryCount j') \<le> sint (MaxRetries j')
              then (\<exists>d. timers (Start_iteration s) = timers s @ [\<lparr>delay = d, jobCopy = j'\<rparr>])
                   \<and> store (Start_iteration s) = q
                   \<and> store (fire_timers (Start_iteration s))
                       = AddJob j' (fold (\<lambda>t. AddJob (jobCopy t)) (timers s) q)
              else timers (Start_iteration s) = timers s
                   \<and> store (Start_iteration s) = MoveJobToDeadLetterQueue j' q)"
proof -
  let ?j' = "j\<lparr>RetryCount := RetryCount j + 1\<rparr>"
  have rc: "sint (RetryCount ?j') = sint (RetryCount j) + 1"
    using sint_succ_64 [OF assms(4)] by simp
  have "if sint (RetryCount ?j') \<le> sint (MaxRetries ?j')
              then (\<exists>d. timers (Start_iteration s) = timers s @ [\<lparr>delay = d, jobCopy = ?j'\<rparr>])
                   \<and> store (Start_iteration s) = q
                   \<and> store (fire_timers (Start_iteration s))
                       = AddJob ?j' (fold (\<lambda>t. AddJob (jobCopy t)) (timers s) q)
              else timers (Start_iteration s) = timers s
                   \<and> store (Start_iteration s) = MoveJobToDeadLetterQueue ?j' q"
    using assms(1-3) by (simp add: Start_iteration_def Let_def fire_timers_def)
  with rc show ?thesis
    by (intro exI [of _ ?j']) simp
qed

theorem C10_failed_job_frame_witness:
  "map jobCopy (timers (Start_iteration (submit (mk_job ''x'' ''error@error.com'' Low 0 1))))
     = [mk_job ''x'' ''error@error.com'' Low 1 1] \<and>
   deadLetterQueue (store (Start_iteration (submit (mk_job ''x'' ''error@error.com'' Low 1 1)))) Low
     = [mk_job ''x'' ''error@error.com'' Low 2 1]"
proof -
  have a: "\<exists>j'. ID j' = ''x'' \<and> Type j' = ''email'' \<and> Payload j' = [''to'' \<mapsto> ''error@error.com'']
           \<and> Priority j' = Low \<and> MaxRetries j' = 1 \<and> CreatedAt j' = 0
           \<and> sint (RetryCount j') = sint rc + 1
           \<and> (if sint (RetryCount j') \<le> 1
              then (\<exists>d. timers (Start_iteration (submit (mk_job ''x'' ''error@error.com'' Low rc 1)))
                       = [\<lparr>delay = d, jobCopy = j'\<rparr>])
              else store (Start_iteration (submit (mk_job ''x'' ''error@error.com'' Low rc 1)))
                       = MoveJobToDeadLetterQueue j' NewQueue)"
    if "rc = 0 \<or> rc = 1" for rc :: "64 word"
  proof -
    let ?j = "mk_job ''x'' ''error@error.com'' Low rc 1"
    have g: "GetJob (store (submit ?j)) = (Inr ?j, NewQueue)"
      by (simp add: submit_def GetJob_single)
    have id: "ID ?j \<noteq> []" by simp
    have fails: "handleJob ?j = Some SimulatedError" by (simp add: handleJob_def)
    have small: "sint (RetryCount ?j) < 2 ^ 63 - 1"
      using that by auto
    from C10_failed_job_frame [OF g id fails small] show ?thesis
      by (auto simp: submit_def)
  qed
  have eq: "j' = mk_job ''x'' ''error@error.com'' Low c 1"
    if "ID j' = ''x''" "Type j' = ''email''" "Payload j' = [''to'' \<mapsto> ''error@error.com'']"
      "Priority j' = Low" "MaxRetries j' = 1" "CreatedAt j' = 0" "RetryCount j' = c" for j' c
    using that by (cases j') (simp add: mk_job_def)
  have w: "sint w = n \<Longrightarrow> - (2 ^ 63) \<le> n \<Longrightarrow> n < 2 ^ 63 \<Longrightarrow> w = word_of_int n" for w :: "64 word" and n
    by auto
  from a [of 0] obtain j0 d where j0: "ID j0 = ''x''" "Type j0 = ''email''"
      "Payload j0 = [''to'' \<mapsto> ''error@error.com'']" "Priority j0 = Low" "MaxRetries j0 = 1"
      "CreatedAt j0 = 0" "sint (RetryCount j0) = 1"
      "timers (Start_iteration (submit (mk_job ''x'' ''error@error.com'' Low 0 1))) = [\<lparr>delay = d, jobCopy = j0\<rparr>]"
    by auto
  from w [OF j0(7)] have "RetryCount j0 = 1" by simp
  from eq [OF j0(1-6) this] j0(8) have first: "map jobCopy
      (timers (Start_iteration (submit (mk_job ''x'' ''error@error.com'' Low 0 1))))
     = [mk_job ''x'' ''error@error.com'' Low 1 1]"
    by simp
  from a [of 1] obtain j1 where j1: "ID j1 = ''x''" "Type j1 = ''email''"
      "Payload j1 = [''to'' \<mapsto> ''error@error.com'']" "Priority j1 = Low" "MaxRetries j1 = 1"
      "CreatedAt j1 = 0" "sint (RetryCount j1) = 2"
      "store (Start_iteration (submit (mk_job ''x'' ''error@error.com'' Low 1 1)))
         = MoveJobToDeadLetterQueue j1 NewQueue"
    by auto
  from w [OF j1(7)] have "RetryCount j1 = 2" by simp
  from eq [OF j1(1-6) this] j1(8) have second:
    "deadLetterQueue (store (Start_iteration (submit (mk_job ''x'' ''error@error.com'' Low 1 1)))) Low
     = [mk_job ''x'' ''error@error.com'' Low 2 1]"
    by (simp add: Move_from_new)
  from first second show ?thesis
    by simp
qed

text \<open>
  C10 as stated fails at the largest \<^verbatim>\<open>int\<close>: the increment wraps to the smallest, which
  is at most any \<open>MaxRetries\<close>, and the job re-enqueued carries that count.
\<close>

theorem C10_counterexample:
  "sint (RetryCount (mk_job ''x'' ''error@error.com'' High 9223372036854775807 3))
     = 9223372036854775807 \<and>
   map (\<lambda>t. sint (RetryCount (jobCopy t)))
     (timers (Start_iteration (submit (mk_job ''x'' ''error@error.com'' High 9223372036854775807 3))))
     = [- 9223372036854775808]"
  by (simp add: submit_def Start_iteration_def GetJob_single handleJob_def Let_def)

section \<open>Facts about the heap\<close>

lemma parent_less: "0 < k \<Longrightarrow> parent k < k"
  unfolding parent_def by arith

lemma parent_eq_iff: "0 < k \<Longrightarrow> parent k = i \<longleftrightarrow> k = 2 * i + 1 \<or> k = 2 * i + 2"
  unfolding parent_def by arith

lemma Swap_length [simp]: "length (Swap h i j) = length h"
  by (simp add: Swap_def Let_def)

lemma Swap_nth_other:
  "k \<noteq> i \<Longrightarrow> k \<noteq> j \<Longrightarrow> Swap h i j ! k = h ! k"
  by (simp add: Swap_def Let_def)

lemma Swap_entry_fst:
  "i < length h \<Longrightarrow> j < length h \<Longrightarrow> entry (Swap h i j ! i) = entry (h ! j)"
  by (cases "i = j") (simp_all add: Swap_def Let_def entry_def)

lemma Swap_entry_snd:
  "i < length h \<Longrightarrow> j < length h \<Longrightarrow> entry (Swap h i j ! j) = entry (h ! i)"
  by (cases "i = j") (simp_all add: Swap_def Let_def entry_def)

lemma entry_time: "entry a = entry b \<Longrightarrow> ScheduleTime a = ScheduleTime b"
  by (simp add: entry_def)

lemma Swap_map_entry:
  assumes "i < length h" and "j < length h"
  shows "map entry (Swap h i j) = (map entry h)[i := map entry h ! j, j := map entry h ! i]"
proof (rule nth_equalityI)
  show "length (map entry (Swap h i j)) = length ((map entry h)[i := map entry h ! j, j := map entry h ! i])"
    by simp
next
  fix k assume "k < length (map entry (Swap h i j))"
  then have k: "k < length h" by simp
  consider "k = j" | "k = i" "k \<noteq> j" | "k \<noteq> i" "k \<noteq> j" by blast
  then show "map entry (Swap h i j) ! k = (map entry h)[i := map entry h ! j, j := map entry h ! i] ! k"
  proof cases
    case 1
    then show ?thesis using assms by (simp add: Swap_entry_snd)
  next
    case 2
    then show ?thesis using assms by (simp add: Swap_entry_fst)
  next
    case 3
    then show ?thesis using assms k by (simp add: Swap_nth_other)
  qed
qed

lemma Swap_entries:
  assumes "i < length h" and "j < length h"
  shows "entries (Swap h i j) = entries h"
proof -
  have "mset ((map entry h)[i := map entry h ! j, j := map entry h ! i]) = mset (map entry h)"
    using assms by (intro mset_swap) simp_all
  then show ?thesis
    unfolding entries_def Swap_map_entry [OF assms] .
qed

lemma Swap_time_fst:
  "i < length h \<Longrightarrow> j < length h \<Longrightarrow> ScheduleTime (Swap h i j ! i) = ScheduleTime (h ! j)"
  by (rule entry_time) (rule Swap_entry_fst)

lemma Swap_time_snd:
  "i < length h \<Longrightarrow> j < length h \<Longrightarrow> ScheduleTime (Swap h i j ! j) = ScheduleTime (h ! i)"
  by (rule entry_time) (rule Swap_entry_snd)

declare up.simps [simp del] down.simps [simp del]

lemma heap_root_min:
  assumes "heap_inv h" and "k < length h"
  shows "ScheduleTime (h ! 0) \<le> ScheduleTime (h ! k)"
  using assms(2)
proof (induction k rule: less_induct)
  case (less k)
  show ?case
  proof (cases "k = 0")
    case True
    then show ?thesis by simp
  next
    case False
    then have pk: "parent k < k"
      by (simp add: parent_less)
    with less.prems have "parent k < length h"
      by simp
    from less.IH [OF pk this]
    have "ScheduleTime (h ! 0) \<le> ScheduleTime (h ! parent k)" .
    moreover from assms(1) less.prems False
    have "ScheduleTime (h ! parent k) \<le> ScheduleTime (h ! k)"
      by (simp add: heap_inv_def heap_upto_def)
    ultimately show ?thesis by simp
  qed
qed

subsection \<open>Sifting up\<close>

lemma up_step:
  assumes j: "0 < j" "j < length h"
    and lt: "ScheduleTime (h ! j) < ScheduleTime (h ! parent j)"
    and inv: "heap_except_up h j"
  shows "heap_except_up (Swap h (parent j) j) (parent j)"
proof -
  let ?i = "parent j"
  let ?h = "Swap h ?i j"
  have ij: "?i < j" using j(1) by (rule parent_less)
  then have i: "?i < length h" using j(2) by simp
  have ti: "ScheduleTime (?h ! ?i) = ScheduleTime (h ! j)"
    using i j(2) by (rule Swap_time_fst)
  have tj: "ScheduleTime (?h ! j) = ScheduleTime (h ! ?i)"
    using i j(2) by (rule Swap_time_snd)
  have to: "ScheduleTime (?h ! k) = ScheduleTime (h ! k)" if "k \<noteq> ?i" "k \<noteq> j" for k
    using that by (simp add: Swap_nth_other)
  have a: "ScheduleTime (h ! parent k) \<le> ScheduleTime (h ! k)"
    if "k < length h" "0 < k" "k \<noteq> j" for k
    using inv that by (simp add: heap_except_up_def)
  have b: "ScheduleTime (h ! ?i) \<le> ScheduleTime (h ! k)"
    if "k < length h" "0 < k" "parent k = j" for k
    using inv that j(1) by (simp add: heap_except_up_def)
  have A: "ScheduleTime (?h ! parent k) \<le> ScheduleTime (?h ! k)"
    if k: "k < length h" "0 < k" "k \<noteq> ?i" for k
  proof (cases "k = j")
    case True
    then show ?thesis using ti tj lt by simp
  next
    case kj: False
    have tk: "ScheduleTime (?h ! k) = ScheduleTime (h ! k)"
      using k(3) kj by (rule to)
    consider "parent k = ?i" | "parent k = j" | "parent k \<noteq> ?i" "parent k \<noteq> j"
      by blast
    then show ?thesis
    proof cases
      case 1
      have "ScheduleTime (h ! ?i) \<le> ScheduleTime (h ! k)"
        using a [OF k(1,2) kj] 1 by simp
      then show ?thesis using 1 ti tk lt by simp
    next
      case 2
      then show ?thesis using b [OF k(1,2) 2] tj tk by simp
    next
      case 3
      then show ?thesis using a [OF k(1,2) kj] to [OF 3] tk by simp
    qed
  qed
  have B: "ScheduleTime (?h ! parent ?i) \<le> ScheduleTime (?h ! k)"
    if k: "k < length h" "0 < k" "parent k = ?i" "0 < ?i" for k
  proof -
    have pi: "parent ?i < ?i" using k(4) by (rule parent_less)
    then have "parent ?i \<noteq> ?i" "parent ?i \<noteq> j" using ij by simp_all
    then have tp: "ScheduleTime (?h ! parent ?i) = ScheduleTime (h ! parent ?i)"
      by (rule to)
    have up: "ScheduleTime (h ! parent ?i) \<le> ScheduleTime (h ! ?i)"
      using i k(4) ij by (intro a) simp_all
    show ?thesis
    proof (cases "k = j")
      case True
      then show ?thesis using tp tj up by simp
    next
      case False
      have "k \<noteq> ?i" using parent_less [OF k(2)] k(3) by simp
      then have "ScheduleTime (?h ! k) = ScheduleTime (h ! k)"
        using False by (rule to)
      moreover have "ScheduleTime (h ! ?i) \<le> ScheduleTime (h ! k)"
        using a [OF k(1,2) False] k(3) by simp
      ultimately show ?thesis using tp up by simp
    qed
  qed
  show ?thesis
    unfolding heap_except_up_def using A B by simp
qed

lemma up_done:
  assumes "heap_except_up h j"
    and "j = 0 \<or> ScheduleTime (h ! parent j) \<le> ScheduleTime (h ! j)"
  shows "heap_inv h"
  unfolding heap_inv_def heap_upto_def
proof (intro allI impI)
  fix k assume k: "k < length h" "0 < k"
  show "ScheduleTime (h ! parent k) \<le> ScheduleTime (h ! k)"
  proof (cases "k = j")
    case True
    then show ?thesis using assms(2) k(2) by simp
  next
    case False
    then show ?thesis using assms(1) k by (simp add: heap_except_up_def)
  qed
qed

lemma up_heap_inv: "j < length h \<Longrightarrow> heap_except_up h j \<Longrightarrow> heap_inv (up h j)"
proof (induction h j rule: up.induct)
  case (1 h j)
  show ?case
  proof (cases "(j - 1) div 2 = j \<or> \<not> Less h j ((j - 1) div 2)")
    case True
    then have stop: "up h j = h"
      by (simp add: up.simps [of h j] Let_def)
    from True have "j = 0 \<or> ScheduleTime (h ! parent j) \<le> ScheduleTime (h ! j)"
      unfolding parent_def Less_def by arith
    with "1.prems"(2) show ?thesis
      unfolding stop by (rule up_done)
  next
    case False
    then have go: "up h j = up (Swap h (parent j) j) (parent j)"
      by (simp add: up.simps [of h j] Let_def parent_def)
    from False have j0: "0 < j"
      by (cases "j = 0") simp_all
    from False have lt: "ScheduleTime (h ! j) < ScheduleTime (h ! parent j)"
      by (simp add: Less_def parent_def)
    have pj: "parent j < length (Swap h (parent j) j)"
      using parent_less [OF j0] "1.prems"(1) by simp
    have "heap_except_up (Swap h (parent j) j) (parent j)"
      using j0 "1.prems"(1) lt "1.prems"(2) by (rule up_step)
    with "1.IH" [OF refl False] pj show ?thesis
      unfolding go parent_def by simp
  qed
qed

lemma up_length: "length (up h j) = length h"
proof (induction h j rule: up.induct)
  case (1 h j)
  show ?case
  proof (cases "(j - 1) div 2 = j \<or> \<not> Less h j ((j - 1) div 2)")
    case True
    then show ?thesis by (simp add: up.simps [of h j] Let_def)
  next
    case False
    with "1.IH" [OF refl False] show ?thesis
      by (simp add: up.simps [of h j] Let_def)
  qed
qed

lemma up_entries: "j < length h \<Longrightarrow> entries (up h j) = entries h"
proof (induction h j rule: up.induct)
  case (1 h j)
  show ?case
  proof (cases "(j - 1) div 2 = j \<or> \<not> Less h j ((j - 1) div 2)")
    case True
    then show ?thesis by (simp add: up.simps [of h j] Let_def)
  next
    case False
    have i: "(j - 1) div 2 < length h"
      using "1.prems" by arith
    then have "entries (up (Swap h ((j - 1) div 2) j) ((j - 1) div 2))
        = entries (Swap h ((j - 1) div 2) j)"
      by (intro "1.IH" [OF refl False]) simp
    also have "\<dots> = entries h"
      using i "1.prems" by (rule Swap_entries)
    finally show ?thesis
      using False by (simp add: up.simps [of h j] Let_def)
  qed
qed

lemma Push_except_up:
  assumes "heap_inv h"
  shows "heap_except_up (Push h x) (length h)"
  unfolding heap_except_up_def
proof (intro conjI allI impI)
  fix k assume k: "k < length (Push h x)" "0 < k" "k \<noteq> length h"
  then have "k < length h" by (simp add: Push_def)
  moreover from this k(2) have "parent k < length h"
    using parent_less [of k] by simp
  ultimately show "ScheduleTime (Push h x ! parent k) \<le> ScheduleTime (Push h x ! k)"
    using assms k(2) by (simp add: Push_def nth_append heap_inv_def heap_upto_def)
next
  fix k assume k: "k < length (Push h x)" "0 < k" "parent k = length h" "0 < length h"
  from parent_less [OF k(2)] k(1,3) have False
    by (simp add: Push_def)
  then show "ScheduleTime (Push h x ! parent (length h)) \<le> ScheduleTime (Push h x ! k)" ..
qed

lemma heap_Push_correct:
  assumes "heap_inv h"
  shows "heap_inv (heap_Push h x)" and "entries (heap_Push h x) = entries h + {#entry x#}"
    and "length (heap_Push h x) = length h + 1"
proof -
  have eq: "heap_Push h x = up (Push h x) (length h)"
    by (simp add: heap_Push_def Let_def Len_def Push_def)
  have len: "length h < length (Push h x)"
    by (simp add: Push_def)
  show "heap_inv (heap_Push h x)"
    unfolding eq using len Push_except_up [OF assms] by (rule up_heap_inv)
  have "entries (Push h x) = entries h + {#entry x#}"
    by (simp add: entries_def Push_def entry_def)
  then show "entries (heap_Push h x) = entries h + {#entry x#}"
    unfolding eq using up_entries [OF len] by simp
  show "length (heap_Push h x) = length h + 1"
    unfolding eq by (simp add: up_length Push_def)
qed

subsection \<open>Sifting down\<close>

lemma down_stop_leaf: "n \<le> 2 * i + 1 \<Longrightarrow> down h i n = h"
  by (simp add: down.simps [of h i n] Let_def)

lemma down_unfold:
  "2 * i + 1 < n \<Longrightarrow>
   down h i n = (if \<not> Less h (down_child h i n) i then h
                 else down (Swap h i (down_child h i n)) (down_child h i n) n)"
  by (simp add: down.simps [of h i n] Let_def down_child_def)

lemma down_stop_order:
  "2 * i + 1 < n \<Longrightarrow> \<not> Less h (down_child h i n) i \<Longrightarrow> down h i n = h"
  by (simp add: down_unfold)

lemma down_go:
  "2 * i + 1 < n \<Longrightarrow> Less h (down_child h i n) i \<Longrightarrow>
   down h i n = down (Swap h i (down_child h i n)) (down_child h i n) n"
  by (simp add: down_unfold)

lemma down_child_bounds:
  "2 * i + 1 < n \<Longrightarrow> i < down_child h i n \<and> down_child h i n < n \<and> parent (down_child h i n) = i"
  by (simp add: down_child_def parent_def)

lemma down_child_least:
  assumes "k < n" and "0 < k" and "parent k = i"
  shows "ScheduleTime (h ! down_child h i n) \<le> ScheduleTime (h ! k)"
proof -
  from assms(2,3) have "k = 2 * i + 1 \<or> k = 2 * i + 2"
    by (simp add: parent_eq_iff)
  then show ?thesis
    using assms(1) by (auto simp: down_child_def Less_def)
qed

lemma down_induct [consumes 0, case_names leaf order swap]:
  assumes "\<And>h i. n \<le> 2 * i + 1 \<Longrightarrow> P h i"
    and "\<And>h i. 2 * i + 1 < n \<Longrightarrow> \<not> Less h (down_child h i n) i \<Longrightarrow> P h i"
    and "\<And>h i. 2 * i + 1 < n \<Longrightarrow> Less h (down_child h i n) i \<Longrightarrow>
           P (Swap h i (down_child h i n)) (down_child h i n) \<Longrightarrow> P h i"
  shows "P h i"
proof (induction "n - i" arbitrary: h i rule: less_induct)
  case less
  show ?case
  proof (cases "n \<le> 2 * i + 1")
    case True
    then show ?thesis by (rule assms(1))
  next
    case False
    then have c: "2 * i + 1 < n" by simp
    show ?thesis
    proof (cases "Less h (down_child h i n) i")
      case False
      with c show ?thesis by (rule assms(2))
    next
      case True
      from down_child_bounds [OF c, of h] have "n - down_child h i n < n - i"
        by arith
      then have "P (Swap h i (down_child h i n)) (down_child h i n)"
        by (rule less)
      with c True show ?thesis by (rule assms(3))
    qed
  qed
qed

lemma down_step:
  assumes n: "n \<le> length h" and c: "2 * i + 1 < n"
    and lt: "ScheduleTime (h ! down_child h i n) < ScheduleTime (h ! i)"
    and inv: "heap_except_down h i n"
  shows "heap_except_down (Swap h i (down_child h i n)) (down_child h i n) n"
proof -
  let ?j = "down_child h i n"
  let ?h = "Swap h i ?j"
  from down_child_bounds [OF c, of h]
  have ij: "i < ?j" and jn: "?j < n" and pj: "parent ?j = i" by simp_all
  have j0: "0 < ?j" using ij by simp
  have il: "i < length h" and jl: "?j < length h" using ij jn n by simp_all
  have ti: "ScheduleTime (?h ! i) = ScheduleTime (h ! ?j)"
    using il jl by (rule Swap_time_fst)
  have tj: "ScheduleTime (?h ! ?j) = ScheduleTime (h ! i)"
    using il jl by (rule Swap_time_snd)
  have to: "ScheduleTime (?h ! k) = ScheduleTime (h ! k)" if "k \<noteq> i" "k \<noteq> ?j" for k
    using that by (simp add: Swap_nth_other)
  have a: "ScheduleTime (h ! parent k) \<le> ScheduleTime (h ! k)"
    if "k < n" "0 < k" "parent k \<noteq> i" for k
    using inv that by (simp add: heap_except_down_def)
  have b: "ScheduleTime (h ! parent i) \<le> ScheduleTime (h ! k)"
    if "k < n" "0 < k" "parent k = i" "0 < i" for k
    using inv that by (simp add: heap_except_down_def)
  have A: "ScheduleTime (?h ! parent k) \<le> ScheduleTime (?h ! k)"
    if k: "k < n" "0 < k" "parent k \<noteq> ?j" for k
  proof -
    consider "k = ?j" | "k = i" | "k \<noteq> i" "k \<noteq> ?j" by blast
    then show ?thesis
    proof cases
      case 1
      then show ?thesis using pj ti tj lt by simp
    next
      case 2
      then have i0: "0 < i" using k(2) by simp
      have "parent i < i" using i0 by (rule parent_less)
      then have "parent i \<noteq> i" "parent i \<noteq> ?j" using ij by simp_all
      then have "ScheduleTime (?h ! parent i) = ScheduleTime (h ! parent i)"
        by (rule to)
      moreover have "ScheduleTime (h ! parent i) \<le> ScheduleTime (h ! ?j)"
        using jn j0 pj i0 by (rule b)
      ultimately show ?thesis using 2 ti by simp
    next
      case 3
      then have tk: "ScheduleTime (?h ! k) = ScheduleTime (h ! k)" by (rule to)
      show ?thesis
      proof (cases "parent k = i")
        case True
        have "ScheduleTime (h ! ?j) \<le> ScheduleTime (h ! k)"
          using k(1,2) True by (rule down_child_least)
        then show ?thesis using True ti tk by simp
      next
        case False
        then have "ScheduleTime (?h ! parent k) = ScheduleTime (h ! parent k)"
          using k(3) by (intro to)
        then show ?thesis using a [OF k(1,2) False] tk by simp
      qed
    qed
  qed
  have B: "ScheduleTime (?h ! parent ?j) \<le> ScheduleTime (?h ! k)"
    if k: "k < n" "0 < k" "parent k = ?j" for k
  proof -
    have "?j < k" using parent_less [OF k(2)] k(3) by simp
    then have "k \<noteq> i" "k \<noteq> ?j" using ij by simp_all
    then have "ScheduleTime (?h ! k) = ScheduleTime (h ! k)" by (rule to)
    moreover have "ScheduleTime (h ! ?j) \<le> ScheduleTime (h ! k)"
      using a [of k] k ij by simp
    ultimately show ?thesis using pj ti by simp
  qed
  show ?thesis
    unfolding heap_except_down_def using A B by simp
qed

lemma down_done_leaf:
  assumes "heap_except_down h i n" and "n \<le> 2 * i + 1"
  shows "heap_upto n h"
  unfolding heap_upto_def
proof (intro allI impI)
  fix k assume k: "k < n" "0 < k"
  have "parent k \<noteq> i"
  proof
    assume "parent k = i"
    with k(2) have "k = 2 * i + 1 \<or> k = 2 * i + 2" by (simp add: parent_eq_iff)
    with k(1) assms(2) show False by arith
  qed
  with assms(1) k show "ScheduleTime (h ! parent k) \<le> ScheduleTime (h ! k)"
    by (simp add: heap_except_down_def)
qed

lemma down_done_order:
  assumes "heap_except_down h i n"
    and "ScheduleTime (h ! i) \<le> ScheduleTime (h ! down_child h i n)"
  shows "heap_upto n h"
  unfolding heap_upto_def
proof (intro allI impI)
  fix k assume k: "k < n" "0 < k"
  show "ScheduleTime (h ! parent k) \<le> ScheduleTime (h ! k)"
  proof (cases "parent k = i")
    case True
    have "ScheduleTime (h ! down_child h i n) \<le> ScheduleTime (h ! k)"
      using k True by (rule down_child_least)
    with assms(2) True show ?thesis by simp
  next
    case False
    with assms(1) k show ?thesis by (simp add: heap_except_down_def)
  qed
qed

lemma down_heap_upto:
  "n \<le> length h \<Longrightarrow> heap_except_down h i n \<Longrightarrow> heap_upto n (down h i n)"
proof (induction h i rule: down_induct [where n = n])
  case (leaf h i)
  then show ?case by (simp add: down_stop_leaf down_done_leaf)
next
  case (order h i)
  from order(2) have "ScheduleTime (h ! i) \<le> ScheduleTime (h ! down_child h i n)"
    by (simp add: Less_def)
  with order show ?case by (simp add: down_stop_order down_done_order)
next
  case (swap h i)
  from swap(2) have lt: "ScheduleTime (h ! down_child h i n) < ScheduleTime (h ! i)"
    by (simp add: Less_def)
  have "heap_except_down (Swap h i (down_child h i n)) (down_child h i n) n"
    using swap(4) swap(1) lt swap(5) by (rule down_step)
  with swap(3,4) show ?case
    by (simp add: down_go [OF swap(1,2)])
qed

lemma down_length: "length (down h i n) = length h"
proof (induction h i rule: down_induct [where n = n])
  case (leaf h i)
  then show ?case by (simp add: down_stop_leaf)
next
  case (order h i)
  then show ?case by (simp add: down_stop_order)
next
  case (swap h i)
  then show ?case by (simp add: down_go)
qed

lemma down_entries: "n \<le> length h \<Longrightarrow> entries (down h i n) = entries h"
proof (induction h i rule: down_induct [where n = n])
  case (leaf h i)
  then show ?case by (simp add: down_stop_leaf)
next
  case (order h i)
  then show ?case by (simp add: down_stop_order)
next
  case (swap h i)
  from down_child_bounds [OF swap(1), of h] swap(4)
  have "i < length h" "down_child h i n < length h" by simp_all
  then have "entries (Swap h i (down_child h i n)) = entries h"
    by (rule Swap_entries)
  with swap show ?case by (simp add: down_go)
qed

lemma down_nth_above: "n \<le> k \<Longrightarrow> down h i n ! k = h ! k"
proof (induction h i rule: down_induct [where n = n])
  case (leaf h i)
  then show ?case by (simp add: down_stop_leaf)
next
  case (order h i)
  then show ?case by (simp add: down_stop_order)
next
  case (swap h i)
  from down_child_bounds [OF swap(1), of h] swap(4)
  have "k \<noteq> i" "k \<noteq> down_child h i n" by simp_all
  then have "Swap h i (down_child h i n) ! k = h ! k"
    by (rule Swap_nth_other)
  with swap show ?case by (simp add: down_go)
qed

subsection \<open>Popping the root\<close>

lemma heap_upto_take: "n \<le> length h \<Longrightarrow> heap_upto n h \<Longrightarrow> heap_inv (take n h)"
  unfolding heap_inv_def heap_upto_def
proof (intro allI impI)
  fix k
  assume n: "n \<le> length h" and ord: "\<forall>k<n. 0 < k \<longrightarrow> ScheduleTime (h ! parent k) \<le> ScheduleTime (h ! k)"
    and k: "k < length (take n h)" "0 < k"
  from k(1) n have kn: "k < n" by simp
  moreover from parent_less [OF k(2)] kn have "parent k < n" by simp
  ultimately show "ScheduleTime (take n h ! parent k) \<le> ScheduleTime (take n h ! k)"
    using ord k(2) by simp
qed

lemma Swap_root_except_down:
  assumes "heap_inv h" and "h \<noteq> []"
  shows "heap_except_down (Swap h 0 (length h - 1)) 0 (length h - 1)"
  unfolding heap_except_down_def
proof (intro conjI allI impI)
  fix k assume k: "k < length h - 1" "0 < k" "parent k \<noteq> 0"
  then have "parent k \<noteq> length h - 1"
    using parent_less [of k] by simp
  with k have "Swap h 0 (length h - 1) ! k = h ! k" "Swap h 0 (length h - 1) ! parent k = h ! parent k"
    by (simp_all add: Swap_nth_other)
  with assms(1) k show "ScheduleTime (Swap h 0 (length h - 1) ! parent k)
      \<le> ScheduleTime (Swap h 0 (length h - 1) ! k)"
    by (simp add: heap_inv_def heap_upto_def)
next
  fix k :: nat assume "(0::nat) < 0"
  then show "ScheduleTime (Swap h 0 (length h - 1) ! parent 0)
      \<le> ScheduleTime (Swap h 0 (length h - 1) ! k)"
    by simp
qed

lemma entries_take_last:
  assumes "h \<noteq> []"
  shows "entries (take (length h - 1) h) + {#entry (h ! (length h - 1))#} = entries h"
proof -
  from assms have "h = take (length h - 1) h @ [h ! (length h - 1)]"
    by (metis butlast_conv_take last_conv_nth snoc_eq_iff_butlast)
  then have "entries h = entries (take (length h - 1) h @ [h ! (length h - 1)])"
    by simp
  then show ?thesis
    by (simp add: entries_def)
qed

lemma heap_Pop_correct:
  assumes inv: "heap_inv h" and ne: "h \<noteq> []"
  shows "\<exists>x h'. heap_Pop h = Some (x, h') \<and> entry x = entry (h ! 0) \<and> heap_inv h'
           \<and> entries h' + {#entry (h ! 0)#} = entries h \<and> length h' + 1 = length h"
proof -
  let ?n = "length h - 1"
  let ?h1 = "Swap h 0 ?n"
  let ?h2 = "down ?h1 0 ?n"
  have n: "?n < length h" using ne by simp
  have z: "0 < length h" using ne by simp
  have pop: "heap_Pop h = Some (?h2 ! ?n, take ?n ?h2)"
    using ne by (simp add: heap_Pop_def Len_def Let_def Pop_def down_length)
  have le1: "?n \<le> length ?h1" by simp
  have last: "?h2 ! ?n = ?h1 ! ?n"
    by (simp add: down_nth_above)
  have x: "entry (?h2 ! ?n) = entry (h ! 0)"
    unfolding last using z n by (rule Swap_entry_snd)
  have "heap_upto ?n ?h2"
    using le1 Swap_root_except_down [OF inv ne] by (rule down_heap_upto)
  then have h': "heap_inv (take ?n ?h2)"
    by (intro heap_upto_take) (simp_all add: down_length)
  have ne2: "?h2 \<noteq> []" using ne by (metis down_length Swap_length length_0_conv)
  have "entries (take ?n ?h2) + {#entry (?h2 ! ?n)#} = entries ?h2"
    using entries_take_last [OF ne2] by (simp add: down_length)
  also have "\<dots> = entries ?h1" using le1 by (rule down_entries)
  also have "\<dots> = entries h" using z n by (rule Swap_entries)
  finally have e: "entries (take ?n ?h2) + {#entry (h ! 0)#} = entries h"
    using x by simp
  have l: "length (take ?n ?h2) + 1 = length h"
    using ne by (simp add: down_length)
  from pop x h' e l show ?thesis by blast
qed

subsection \<open>The scheduler keeps the heap order\<close>

lemma heap_inv_Nil: "heap_inv []"
  by (simp add: heap_inv_def heap_upto_def)

lemma Scheduler_entries:
  "entries (heap (Scheduler j d now s)) = entries (heap s) + {#(j, now + d)#}"
proof -
  let ?x = "\<lparr>Job = j, ScheduleTime = now + d, index = 0\<rparr>"
  have eq: "heap_Push (heap s) ?x = up (Push (heap s) ?x) (length (heap s))"
    by (simp add: heap_Push_def Let_def Len_def Push_def)
  have "length (heap s) < length (Push (heap s) ?x)"
    by (simp add: Push_def)
  then have "entries (heap_Push (heap s) ?x) = entries (Push (heap s) ?x)"
    unfolding eq by (rule up_entries)
  then show ?thesis
    by (simp add: Scheduler_def entries_def Push_def entry_def)
qed

lemma Scheduler_length: "length (heap (Scheduler j d now s)) = length (heap s) + 1"
  by (simp add: Scheduler_def heap_Push_def Let_def Len_def up_length Push_def)

lemma Scheduler_heap_inv: "heap_inv (heap s) \<Longrightarrow> heap_inv (heap (Scheduler j d now s))"
  by (simp add: Scheduler_def heap_Push_correct(1))

lemma poller_tick_idle:
  "heap s = [] \<or> now \<le> ScheduleTime (heap s ! 0) \<Longrightarrow> poller_tick now s = s"
  by (auto simp: poller_tick_def Len_def Let_def)

lemma poller_tick_due:
  assumes inv: "heap_inv (heap s)" and ne: "heap s \<noteq> []"
    and due: "ScheduleTime (heap s ! 0) < now"
  shows "\<exists>x h'. heap_Pop (heap s) = Some (x, h')
           \<and> poller_tick now s = s\<lparr>heap := h', queue_s := AddJob (Job (heap s ! 0)) (queue_s s)\<rparr>
           \<and> entry x = entry (heap s ! 0) \<and> heap_inv h'
           \<and> entries h' + {#entry (heap s ! 0)#} = entries (heap s)
           \<and> length h' + 1 = length (heap s)"
proof -
  from heap_Pop_correct [OF inv ne] obtain x h' where p: "heap_Pop (heap s) = Some (x, h')"
    and rest: "entry x = entry (heap s ! 0)" "heap_inv h'"
      "entries h' + {#entry (heap s ! 0)#} = entries (heap s)" "length h' + 1 = length (heap s)"
    by blast
  have "poller_tick now s = s\<lparr>heap := h', queue_s := AddJob (Job (heap s ! 0)) (queue_s s)\<rparr>"
    using ne due p by (simp add: poller_tick_def Len_def Let_def)
  with p rest show ?thesis by blast
qed

lemma poller_tick_heap_inv:
  assumes "heap_inv (heap s)"
  shows "heap_inv (heap (poller_tick now s))"
proof (cases "heap s \<noteq> [] \<and> ScheduleTime (heap s ! 0) < now")
  case True
  with poller_tick_due [OF assms, of now] show ?thesis by auto
next
  case False
  then have "poller_tick now s = s" by (intro poller_tick_idle) auto
  with assms show ?thesis by simp
qed

lemma apply_op_heap_inv: "heap_inv (heap s) \<Longrightarrow> heap_inv (heap (apply_op op s))"
  by (cases op) (simp_all add: Scheduler_heap_inv poller_tick_heap_inv)

lemma fold_apply_op_heap_inv:
  "heap_inv (heap s) \<Longrightarrow> heap_inv (heap (fold apply_op ops s))"
  by (induction ops arbitrary: s) (simp_all add: apply_op_heap_inv)

section \<open>Claims about the scheduler\<close>

text \<open>
  C7. \<^verbatim>\<open>Scheduler\<close> adds to the heap one entry, holding the job and the instant
  \<open>now + d\<close>, and keeps every other entry. After every sequence of \<^verbatim>\<open>Scheduler\<close> calls
  and passes of the poller on a new scheduler the heap is ordered: every slot is no
  earlier than its parent, so the root, the entry the poller looks at, is no later than
  any entry of the heap.
\<close>

theorem C7_heap_invariant:
  "entries (heap (Scheduler j d now s)) = entries (heap s) + {#(j, now + d)#}
   \<and> length (heap (Scheduler j d now s)) = length (heap s) + 1
   \<and> heap_inv (heap (fold apply_op ops (NewScheduler q)))
   \<and> (\<forall>k<length (heap (fold apply_op ops (NewScheduler q))).
         ScheduleTime (heap (fold apply_op ops (NewScheduler q)) ! 0)
           \<le> ScheduleTime (heap (fold apply_op ops (NewScheduler q)) ! k))"
proof -
  have "heap_inv (heap (NewScheduler q))"
    by (simp add: NewScheduler_def heap_inv_Nil)
  then have inv: "heap_inv (heap (fold apply_op ops (NewScheduler q)))"
    by (rule fold_apply_op_heap_inv)
  then have "\<forall>k<length (heap (fold apply_op ops (NewScheduler q))).
         ScheduleTime (heap (fold apply_op ops (NewScheduler q)) ! 0)
           \<le> ScheduleTime (heap (fold apply_op ops (NewScheduler q)) ! k)"
    by (simp add: heap_root_min)
  with inv show ?thesis
    by (simp add: Scheduler_entries Scheduler_length)
qed

text \<open>
  C3, as amended. A pass of the poller over an ordered heap promotes at most one job.
  When the heap is non-empty and the instant of its root, which is then the earliest of
  the heap, is strictly before the clock reading, the pass removes exactly that entry,
  keeps the others in heap order and calls \<^verbatim>\<open>AddJob\<close> with its job. When the heap is
  empty or the root's instant is at or after the clock reading, the pass changes nothing.
\<close>

theorem C3_poller_tick:
  assumes "heap_inv (heap s)"
  shows "(heap s \<noteq> [] \<and> ScheduleTime (heap s ! 0) < now \<longrightarrow>
            queue_s (poller_tick now s) = AddJob (Job (heap s ! 0)) (queue_s s)
            \<and> entries (heap (poller_tick now s)) + {#entry (heap s ! 0)#} = entries (heap s)
            \<and> length (heap (poller_tick now s)) + 1 = length (heap s)
            \<and> heap_inv (heap (poller_tick now s))
            \<and> (\<forall>k<length (heap s). ScheduleTime (heap s ! 0) \<le> ScheduleTime (heap s ! k)))
       \<and> (heap s = [] \<or> now \<le> ScheduleTime (heap s ! 0) \<longrightarrow> poller_tick now s = s)"
proof (intro conjI impI)
  assume due: "heap s \<noteq> [] \<and> ScheduleTime (heap s ! 0) < now"
  from poller_tick_due [OF assms, of now] due obtain x h' where
    t: "poller_tick now s = s\<lparr>heap := h', queue_s := AddJob (Job (heap s ! 0)) (queue_s s)\<rparr>"
    and h': "heap_inv h'" "entries h' + {#entry (heap s ! 0)#} = entries (heap s)"
      "length h' + 1 = length (heap s)"
    by blast
  show "queue_s (poller_tick now s) = AddJob (Job (heap s ! 0)) (queue_s s)"
    unfolding t by simp
  show "entries (heap (poller_tick now s)) + {#entry (heap s ! 0)#} = entries (heap s)"
    unfolding t using h'(2) by simp
  show "length (heap (poller_tick now s)) + 1 = length (heap s)"
    unfolding t using h'(3) by simp
  show "heap_inv (heap (poller_tick now s))"
    unfolding t using h'(1) by simp
  show "\<forall>k<length (heap s). ScheduleTime (heap s ! 0) \<le> ScheduleTime (heap s ! k)"
    using assms by (simp add: heap_root_min)
next
  assume "heap s = [] \<or> now \<le> ScheduleTime (heap s ! 0)"
  then show "poller_tick now s = s"
    by (rule poller_tick_idle)
qed

lemma three_scheduled_heap:
  "length (heap three_scheduled) = 3"
  "map ScheduleTime (heap three_scheduled) = [10, 30, 20]"
  by code_simp+

lemma three_scheduled_heap_inv: "heap_inv (heap three_scheduled)"
  unfolding three_scheduled_def
  by (rule fold_apply_op_heap_inv) (simp add: NewScheduler_def heap_inv_Nil)

theorem C7_heap_invariant_witness:
  "length (heap three_scheduled) = 3
   \<and> ScheduleTime (heap three_scheduled ! 0) \<le> ScheduleTime (heap three_scheduled ! 1)
   \<and> ScheduleTime (heap three_scheduled ! 0) \<le> ScheduleTime (heap three_scheduled ! 2)"
proof -
  note T = C7_heap_invariant [where q = NewQueue and ops = "[Schedule (mk_job ''a'' ''t'' High 0 3) 30 0,
        Schedule (mk_job ''b'' ''t'' Low 0 3) 10 0, Schedule (mk_job ''c'' ''t'' Medium 0 3) 20 0]",
      folded three_scheduled_def, THEN conjunct2, THEN conjunct2, THEN conjunct2]
  from T [THEN spec, of 1] T [THEN spec, of 2] three_scheduled_heap(1) show ?thesis
    by simp
qed

theorem C3_poller_tick_witness:
  "length (heap (poller_tick 100 three_scheduled)) + 1 = length (heap three_scheduled)
   \<and> queue_s (poller_tick 100 three_scheduled)
       = AddJob (Job (heap three_scheduled ! 0)) (queue_s three_scheduled)
   \<and> poller_tick 10 three_scheduled = three_scheduled"
proof -
  have ne: "heap three_scheduled \<noteq> []"
    using three_scheduled_heap(1) by auto
  have t0: "ScheduleTime (heap three_scheduled ! 0) = 10"
    using three_scheduled_heap(2) ne by (cases "heap three_scheduled") simp_all
  note T = C3_poller_tick [OF three_scheduled_heap_inv]
  from T [of 100] ne t0
  have "length (heap (poller_tick 100 three_scheduled)) + 1 = length (heap three_scheduled)"
    "queue_s (poller_tick 100 three_scheduled)
       = AddJob (Job (heap three_scheduled ! 0)) (queue_s three_scheduled)"
    by simp_all
  moreover from T [of 10] t0 have "poller_tick 10 three_scheduled = three_scheduled"
    by simp
  ultimately show ?thesis
    by simp
qed

text \<open>
  C3 as stated fails twice on this history. At clock reading 100 all three entries are
  overdue, and one pass of the poller promotes only the earliest: the entries due at 20
  and 30 stay in the heap. At clock reading 10 the entry due at 10 is not promoted:
  \<^verbatim>\<open>After\<close> is strict.
\<close>

theorem C3_counterexample:
  "map ScheduleTime (heap (poller_tick 100 three_scheduled)) = [20, 30]
   \<and> map ID (queue (queue_s (poller_tick 100 three_scheduled)) Low) = [''b'']
   \<and> map ID (queue (queue_s (poller_tick 100 three_scheduled)) Medium) = []
   \<and> map ID (queue (queue_s (poller_tick 100 three_scheduled)) High) = []
   \<and> map ScheduleTime (heap (poller_tick 10 three_scheduled)) = [10, 30, 20]
   \<and> map ID (queue (queue_s (poller_tick 10 three_scheduled)) Low) = []"
  by code_simp

end
